theory Spec2Isabelle
  imports
    Complex_Main
    "HOL-Library.AList"
    "HOL-Library.Char_ord"
    "HOL-Library.List_Lexorder"
    "HOL-Library.Product_Lexorder"
begin

section \<open>Text: character classes and case conversion\<close>

text \<open>
  Python strings are modelled as \<open>string\<close>. The model covers ASCII text, where
  \<open>str.upper\<close> and \<open>str.lower\<close> exchange \<open>a-z\<close> and \<open>A-Z\<close> and leave every other
  character alone. The classes \<open>[A-Z]\<close> and \<open>[0-9]\<close> of the regular expression are
  written out as the characters they hold.
\<close>

definition is_upper_letter :: "char \<Rightarrow> bool" where
  "is_upper_letter c = (c \<in> set ''ABCDEFGHIJKLMNOPQRSTUVWXYZ'')"

definition is_digit :: "char \<Rightarrow> bool" where
  "is_digit c = (c \<in> set ''0123456789'')"

definition upper_char :: "char \<Rightarrow> char" where
  "upper_char c =
     (case map_of (zip ''abcdefghijklmnopqrstuvwxyz'' ''ABCDEFGHIJKLMNOPQRSTUVWXYZ'') c of
        Some d \<Rightarrow> d
      | None \<Rightarrow> c)"

definition lower_char :: "char \<Rightarrow> char" where
  "lower_char c =
     (case map_of (zip ''ABCDEFGHIJKLMNOPQRSTUVWXYZ'' ''abcdefghijklmnopqrstuvwxyz'') c of
        Some d \<Rightarrow> d
      | None \<Rightarrow> c)"

definition upper :: "string \<Rightarrow> string" where
  "upper s = map upper_char s"

definition lower :: "string \<Rightarrow> string" where
  "lower s = map lower_char s"

text \<open>
  \<open>strip s\<close> is \<open>s.strip()\<close>: it drops the whitespace at both ends, the characters
  \<open>is_space\<close> lists.
\<close>

definition is_space :: "char \<Rightarrow> bool" where
  "is_space c =
     (c \<in> set [CHR 0x09, CHR 0x0A, CHR 0x0B, CHR 0x0C, CHR 0x0D,
               CHR 0x1C, CHR 0x1D, CHR 0x1E, CHR 0x1F, CHR 0x20])"

definition strip :: "string \<Rightarrow> string" where
  "strip s = rev (dropWhile is_space (rev (dropWhile is_space s)))"

definition startswith_dollar :: "string \<Rightarrow> bool" where
  "startswith_dollar s = (case s of [] \<Rightarrow> False | c # _ \<Rightarrow> c = CHR ''$'')"

section \<open>The recognizer \<open>TICKER_RE\<close>\<close>

text \<open>
  \<open>TICKER_RE = (?<![A-Z0-9$])(\$?[A-Z]{1,5})(?![A-Z0-9])\<close>.
  \<open>lookbehind_ok u p\<close> is the negative lookbehind at position \<open>p\<close> of \<open>u\<close>,
  \<open>lookahead_ok s\<close> the negative lookahead on the rest \<open>s\<close> of the text.
  \<open>match_letters s\<close> is \<open>[A-Z]{1,5}(?![A-Z0-9])\<close> at the head of \<open>s\<close>: the greedy
  quantifier tries five letters first and backs off one letter at a time.
  \<open>match_here s\<close> is the group with its lookahead: the greedy \<open>\$?\<close> takes the dollar
  first and gives it back when the rest fails.
\<close>

definition lookbehind_ok :: "string \<Rightarrow> nat \<Rightarrow> bool" where
  "lookbehind_ok u p =
     (p = 0 \<or> \<not> (is_upper_letter (u ! (p - 1)) \<or> is_digit (u ! (p - 1)) \<or> u ! (p - 1) = CHR ''$''))"

definition lookahead_ok :: "string \<Rightarrow> bool" where
  "lookahead_ok s = (case s of [] \<Rightarrow> True | c # _ \<Rightarrow> \<not> (is_upper_letter c \<or> is_digit c))"

definition letters_then_boundary :: "string \<Rightarrow> nat \<Rightarrow> bool" where
  "letters_then_boundary s k =
     (k \<le> length s \<and> list_all is_upper_letter (take k s) \<and> lookahead_ok (drop k s))"

definition match_letters :: "string \<Rightarrow> string option" where
  "match_letters s = map_option (\<lambda>k. take k s) (List.find (letters_then_boundary s) [5, 4, 3, 2, 1])"

definition match_here :: "string \<Rightarrow> string option" where
  "match_here s =
     (if startswith_dollar s then
        (case match_letters (tl s) of
           Some m \<Rightarrow> Some (CHR ''$'' # m)
         | None \<Rightarrow> match_letters s)
      else match_letters s)"

lemma match_letters_nonempty: "match_letters s = Some m \<Longrightarrow> m \<noteq> [] \<and> length m \<le> length s"
  by (auto simp: match_letters_def letters_then_boundary_def split: if_splits)

lemma match_here_nonempty: "match_here s = Some m \<Longrightarrow> m \<noteq> [] \<and> length m \<le> length s"
  by (cases s)
     (auto simp: match_here_def startswith_dollar_def
           dest: match_letters_nonempty split: if_splits option.splits)

text \<open>
  \<open>TICKER_RE.finditer(u)\<close>: the scan from position \<open>p\<close>, left to right, without overlap.
  A match is reported with the position where it starts; the scan goes on after its
  last character, and one character further on where nothing matches.
\<close>

function finditer :: "string \<Rightarrow> nat \<Rightarrow> (nat \<times> string) list" where
  "finditer u p =
     (if length u \<le> p then []
      else if lookbehind_ok u p then
        (case match_here (drop p u) of
           Some m \<Rightarrow> (p, m) # finditer u (p + length m)
         | None \<Rightarrow> finditer u (p + 1))
      else finditer u (p + 1))"
  by pat_completeness auto
termination
proof (relation "measure (\<lambda>(u, p). length u - p)")
  show "wf (measure (\<lambda>(u, p). length u - p))" by simp
next
  fix u :: string and p :: nat and m :: string
  assume "\<not> length u \<le> p" and "match_here (drop p u) = Some m"
  then have "m \<noteq> []" and "p < length u"
    using match_here_nonempty by auto
  then show "((u, p + length m), (u, p)) \<in> measure (\<lambda>(u, p). length u - p)"
    by (cases m) auto
qed auto

declare finditer.simps [simp del]

definition ticker_matches :: "string \<Rightarrow> string list" where
  "ticker_matches u = map snd (finditer u 0)"

section \<open>The candidacy filter and \<open>extract_tickers\<close>\<close>

definition is_candidate_ticker :: "string \<Rightarrow> string set \<Rightarrow> bool" where
  "is_candidate_ticker raw stopwords =
     (let t = upper raw in
      if startswith_dollar t \<and> length (tl t) = 1 then True
      else
        let t = (if startswith_dollar t then tl t else t) in
        if length t = 1 then False
        else if t \<in> stopwords then False
        else if t \<in> {''AAAA'', ''BBBB'', ''CCCC''} then False
        else True)"

definition strip_dollar :: "string \<Rightarrow> string" where
  "strip_dollar raw = (if startswith_dollar raw then tl raw else raw)"

text \<open>
  The body of the loop of \<open>extract_tickers\<close> (lines 151 to 153): what one raw match
  adds to \<open>out\<close>, \<open>None\<close> when it adds nothing.
\<close>

definition ticker_of_match :: "string \<Rightarrow> string set \<Rightarrow> string option" where
  "ticker_of_match raw stopwords =
     (if is_candidate_ticker raw stopwords then Some (strip_dollar raw) else None)"

definition extract_tickers :: "string \<Rightarrow> string set \<Rightarrow> string list" where
  "extract_tickers text stopwords =
     (if text = [] then []
      else List.map_filter (\<lambda>raw. ticker_of_match raw stopwords) (ticker_matches (upper text)))"

section \<open>The stopword set \<open>load_stopwords\<close>\<close>

text \<open>
  The file \<open>tickers_stopwords.txt\<close> is given as the lines that reading it yields,
  \<open>None\<close> when \<open>open\<close> raises \<open>FileNotFoundError\<close>. The file itself is not among the
  sources of the repository. \<open>stopword_line\<close> is the body of the loop over the lines
  (lines 119 to 121).
\<close>

definition startswith_hash :: "string \<Rightarrow> bool" where
  "startswith_hash s = (case s of [] \<Rightarrow> False | c # _ \<Rightarrow> c = CHR ''#'')"

definition stopword_line :: "string \<Rightarrow> string set \<Rightarrow> string set" where
  "stopword_line line sw =
     (let t = upper (strip line) in
      if t \<noteq> [] \<and> \<not> startswith_hash t then insert t sw else sw)"

definition load_stopwords :: "string list option \<Rightarrow> string set" where
  "load_stopwords file = (case file of None \<Rightarrow> {} | Some ls \<Rightarrow> fold stopword_line ls {})"

section \<open>Python dictionaries, \<open>sorted\<close> and slices\<close>

text \<open>
  A \<open>dict\<close> keeps its keys in insertion order, so it is an association list with distinct
  keys: \<open>map_of d k\<close> is \<open>d.get(k)\<close> and \<open>AList.update k v d\<close> is \<open>d[k] = v\<close> (a
  known key keeps its place, a new key goes to the end).
  \<open>sorted(xs, key=key, reverse=True)\<close> reverses the list, sorts it stably in ascending
  order of the key and reverses the result. \<open>xs[:n]\<close> counts a negative \<open>n\<close> from the end.
\<close>

definition sorted_reverse :: "('a \<Rightarrow> 'k::linorder) \<Rightarrow> 'a list \<Rightarrow> 'a list" where
  "sorted_reverse key xs = rev (sort_key key (rev xs))"

definition slice_to :: "int \<Rightarrow> 'a list \<Rightarrow> 'a list" where
  "slice_to n xs = (if 0 \<le> n then take (nat n) xs else take (length xs - nat (- n)) xs)"

text \<open>
  The test both aggregators make before they store evidence, \<open>prev is None or x > prev[0]\<close>:
  \<open>replaces x prev\<close> for the strength \<open>x\<close> of the new observation and the stored pair
  \<open>prev\<close>.
\<close>

definition replaces :: "'s::linorder \<Rightarrow> ('s \<times> 'a) option \<Rightarrow> bool" where
  "replaces x prev = (case prev of None \<Rightarrow> True | Some pr \<Rightarrow> x > fst pr)"

section \<open>The single-source aggregator \<open>build_scoreboard\<close>\<close>

text \<open>
  A top-level comment, as the aggregator reads it. \<open>c_body = None\<close>: the object has no
  attribute \<open>body\<close>. \<open>c_author = None\<close>: \<open>c.author is None\<close>, otherwise the field holds
  \<open>str(c.author)\<close>. \<open>c_score = None\<close>: the attribute \<open>score\<close> is absent or \<open>None\<close>.
  \<open>c_permalink = None\<close>: the attribute \<open>permalink\<close> is absent.
\<close>

record comment =
  c_body :: "string option"
  c_author :: "string option"
  c_score :: "int option"
  c_permalink :: "string option"

text \<open>
  The two tables of a run: \<open>ticker_authors\<close> and \<open>ticker_best_comment\<close>. The list
  \<open>comments\<close> below is \<open>thread.comments\<close>, the source's \<open>top\<close>.
\<close>

type_synonym sb_tables = "(string \<times> string set) list \<times> (string \<times> (int \<times> string)) list"

definition comment_score :: "comment \<Rightarrow> int" where
  "comment_score c = (case c_score c of None \<Rightarrow> 0 | Some s \<Rightarrow> s)"

definition comment_link :: "comment \<Rightarrow> string" where
  "comment_link c =
     ''https://www.reddit.com'' @ (case c_permalink c of None \<Rightarrow> [] | Some l \<Rightarrow> l)"

text \<open>The body of \<open>for t in tickers\<close> (lines 197 to 203).\<close>

definition note_ticker :: "string \<Rightarrow> int \<Rightarrow> string \<Rightarrow> string \<Rightarrow> sb_tables \<Rightarrow> sb_tables" where
  "note_ticker author score link t tabs =
     (case tabs of (ticker_authors, ticker_best_comment) \<Rightarrow>
        (AList.update t
           (insert author (case map_of ticker_authors t of None \<Rightarrow> {} | Some a \<Rightarrow> a))
           ticker_authors,
         (if replaces score (map_of ticker_best_comment t)
          then AList.update t (score, link) ticker_best_comment
          else ticker_best_comment)))"

text \<open>
  The body of \<open>for c in top\<close> (lines 187 to 203). Python fixes no order for the walk
  over \<open>set(extract_tickers(...))\<close>; the model walks the tickers in the order in which
  \<open>remdups\<close> leaves them. Each ticker of the set touches only its own entries of the
  tables, and \<open>sorted\<close> orders the entries by a key that no two of them share.
\<close>

definition scan_comment :: "string set \<Rightarrow> comment \<Rightarrow> sb_tables \<Rightarrow> sb_tables" where
  "scan_comment stopwords c tabs =
     (case c_body c of
        None \<Rightarrow> tabs
      | Some b \<Rightarrow>
          (case c_author c of
             None \<Rightarrow> tabs
           | Some a \<Rightarrow>
               let tickers = remdups (extract_tickers b stopwords) in
               if tickers = [] then tabs
               else fold (note_ticker (lower a) (comment_score c) (comment_link c)) tickers tabs))"

definition scoreboard_tables :: "string set \<Rightarrow> comment list \<Rightarrow> sb_tables" where
  "scoreboard_tables stopwords comments = fold (scan_comment stopwords) comments ([], [])"

record scoreboard_item =
  ticker :: string
  unique_authors :: nat
  best_comment :: "string option"

definition build_scoreboard :: "comment list \<Rightarrow> string set \<Rightarrow> int \<Rightarrow> scoreboard_item list" where
  "build_scoreboard comments stopwords max_tickers =
     (case scoreboard_tables stopwords comments of (ticker_authors, ticker_best_comment) \<Rightarrow>
        let ranked = sorted_reverse (\<lambda>kv. (card (snd kv), fst kv)) ticker_authors;
            ranked = slice_to max_tickers ranked
        in map (\<lambda>(t, authors).
                 \<lparr>ticker = t, unique_authors = card authors,
                  best_comment =
                    (case map_of ticker_best_comment t of
                       None \<Rightarrow> None
                     | Some best \<Rightarrow> Some (snd best))\<rparr>)
               ranked)"

section \<open>Configuration values and Python's conversions\<close>

text \<open>
  The configuration is what \<open>json.load\<close> returns: a value of the type \<open>json\<close>, an
  object being a \<open>dict\<close> (an association list with distinct keys). Floats are idealised
  as real numbers, so \<open>inf\<close> and \<open>nan\<close> are outside the model.
\<close>

datatype json =
    JNull
  | JBool bool
  | JInt int
  | JFloat real
  | JStr string
  | JArr "json list"
  | JObj "(string \<times> json) list"

datatype error = AttributeError | TypeError | ValueError | FetchError

text \<open>\<open>py_truthy v\<close> is \<open>bool(v)\<close>, \<open>py_or a b\<close> is \<open>a or b\<close>, \<open>py_get d k v\<close> is \<open>d.get(k, v)\<close>.\<close>

fun py_truthy :: "json \<Rightarrow> bool" where
  "py_truthy JNull = False"
| "py_truthy (JBool b) = b"
| "py_truthy (JInt i) = (i \<noteq> 0)"
| "py_truthy (JFloat r) = (r \<noteq> 0)"
| "py_truthy (JStr s) = (s \<noteq> [])"
| "py_truthy (JArr xs) = (xs \<noteq> [])"
| "py_truthy (JObj kvs) = (kvs \<noteq> [])"

definition py_or :: "json \<Rightarrow> json \<Rightarrow> json" where
  "py_or a b = (if py_truthy a then a else b)"

definition py_get :: "(string \<times> json) list \<Rightarrow> string \<Rightarrow> json \<Rightarrow> json" where
  "py_get d k v = (case map_of d k of None \<Rightarrow> v | Some x \<Rightarrow> x)"

text \<open>
  A post, as the aggregator reads it. \<open>created_utc = None\<close>: reading the attribute
  raises, or it holds no number. The other fields are \<open>None\<close> where \<open>getattr\<close> falls back
  on its default or the attribute holds \<open>None\<close>.
\<close>

record post =
  created_utc :: "real option"
  title :: "string option"
  selftext :: "string option"
  p_score :: "int option"
  num_comments :: "int option"
  p_permalink :: "string option"

text \<open>
  A listing either raises when it is asked for (\<open>CallRaises\<close>), raises while it is
  read (\<open>IterRaises\<close>), or yields its posts. \<open>_within_hours\<close> reads the clock once for
  every post, so each post comes with the reading of \<open>datetime.now(timezone.utc)\<close> taken
  at its check, in microseconds since the epoch.
\<close>

datatype listing_result = CallRaises | IterRaises | Posts "(int \<times> post) list"

text \<open>
  What the run takes from outside the repository. \<open>float_of_str\<close> and \<open>int_of_str\<close> are
  Python's \<open>float(s)\<close> and \<open>int(s)\<close> on a string, \<open>None\<close> where they raise \<open>ValueError\<close>.
  \<open>str_of\<close> is \<open>str(v)\<close> for a value that is not a string. \<open>listing nm md n\<close> is
  what \<open>r.subreddit(nm)\<close> gives for the mode \<open>md\<close> (\<open>hot\<close>, \<open>new\<close> or \<open>top\<close>).
\<close>

record env =
  float_of_str :: "string \<Rightarrow> real option"
  int_of_str :: "string \<Rightarrow> int option"
  str_of :: "json \<Rightarrow> string"
  listing :: "string \<Rightarrow> string \<Rightarrow> int \<Rightarrow> listing_result"

fun py_float :: "env \<Rightarrow> json \<Rightarrow> error + real" where
  "py_float e JNull = Inl TypeError"
| "py_float e (JBool b) = Inr (if b then 1 else 0)"
| "py_float e (JInt i) = Inr (of_int i)"
| "py_float e (JFloat r) = Inr r"
| "py_float e (JStr s) = (case float_of_str e s of None \<Rightarrow> Inl ValueError | Some r \<Rightarrow> Inr r)"
| "py_float e (JArr xs) = Inl TypeError"
| "py_float e (JObj kvs) = Inl TypeError"

text \<open>\<open>int(x)\<close> of a float truncates towards zero.\<close>

fun py_int :: "env \<Rightarrow> json \<Rightarrow> error + int" where
  "py_int e JNull = Inl TypeError"
| "py_int e (JBool b) = Inr (if b then 1 else 0)"
| "py_int e (JInt i) = Inr i"
| "py_int e (JFloat r) = Inr (if 0 \<le> r then \<lfloor>r\<rfloor> else \<lceil>r\<rceil>)"
| "py_int e (JStr s) = (case int_of_str e s of None \<Rightarrow> Inl ValueError | Some i \<Rightarrow> Inr i)"
| "py_int e (JArr xs) = Inl TypeError"
| "py_int e (JObj kvs) = Inl TypeError"

definition py_str :: "env \<Rightarrow> json \<Rightarrow> string" where
  "py_str e v = (case v of JStr s \<Rightarrow> s | _ \<Rightarrow> str_of e v)"

text \<open>Iterating a value with \<open>for s in subs\<close>: a dict yields its keys, a string its characters.\<close>

fun py_iter :: "json \<Rightarrow> error + json list" where
  "py_iter (JArr xs) = Inr xs"
| "py_iter (JObj kvs) = Inr (map (\<lambda>kv. JStr (fst kv)) kvs)"
| "py_iter (JStr s) = Inr (map (\<lambda>c. JStr [c]) s)"
| "py_iter v = Inl TypeError"

text \<open>Rounding to the nearest integer, ties to the even one, as Python rounds.\<close>

definition round_half_even :: "real \<Rightarrow> int" where
  "round_half_even x =
     (let f = \<lfloor>x\<rfloor>; d = x - of_int f in
      if d < 1 / 2 then f else if 1 / 2 < d then f + 1 else if even f then f else f + 1)"

definition round2 :: "real \<Rightarrow> real" where
  "round2 x = of_int (round_half_even (x * 100)) / 100"

section \<open>The recency window \<open>_within_hours\<close>\<close>

text \<open>
  Datetimes are whole microseconds since the epoch. \<open>_dt_from_utc\<close> rounds the timestamp
  to the microsecond and raises outside the years 1 to 9999; \<open>timedelta(hours=h)\<close> raises
  when it spans more than 999999999 days, and the subtraction raises when the cutoff
  leaves the range of \<open>datetime\<close>. \<open>None\<close> stands for each of these exceptions.
\<close>

definition dt_min :: int where
  "dt_min = - 62135596800000000"

definition dt_max :: int where
  "dt_max = 253402300799999999"

definition dt_from_utc :: "real \<Rightarrow> int option" where
  "dt_from_utc ts =
     (let us = round_half_even (ts * 1000000) in
      if dt_min \<le> us \<and> us \<le> dt_max then Some us else None)"

definition timedelta_hours :: "int \<Rightarrow> int option" where
  "timedelta_hours h =
     (let us = h * 3600000000; days = us div 86400000000 in
      if - 999999999 \<le> days \<and> days \<le> 999999999 then Some us else None)"

definition within_hours :: "int \<Rightarrow> real \<Rightarrow> int \<Rightarrow> bool option" where
  "within_hours now ts hours =
     (case timedelta_hours hours of
        None \<Rightarrow> None
      | Some delta \<Rightarrow>
          let cutoff = now - delta in
          if cutoff < dt_min \<or> dt_max < cutoff then None
          else (case dt_from_utc ts of None \<Rightarrow> None | Some d \<Rightarrow> Some (cutoff \<le> d)))"

section \<open>The multi-source aggregator \<open>build_cross_sub_radar\<close>\<close>

text \<open>The three tables of a run.\<close>

record radar_tables =
  agg_score :: "(string \<times> real) list"
  best_link :: "(string \<times> (real \<times> string)) list"
  best_src :: "(string \<times> string) list"

text \<open>The fields of one entry of \<open>cross_subs\<close>, as lines 44 to 50 resolve them.\<close>

record source =
  name :: string
  weight :: real
  mode :: string
  limit_posts :: int
  lookback_hours :: int

definition source_weight :: "env \<Rightarrow> (string \<times> json) list \<Rightarrow> error + real" where
  "source_weight e s = py_float e (py_or (py_get s ''weight'' (JFloat 0.35)) (JFloat 0.35))"

definition source_limit_posts :: "env \<Rightarrow> (string \<times> json) list \<Rightarrow> error + int" where
  "source_limit_posts e s = py_int e (py_or (py_get s ''limit_posts'' (JInt 40)) (JInt 40))"

definition source_lookback_hours :: "env \<Rightarrow> (string \<times> json) list \<Rightarrow> error + int" where
  "source_lookback_hours e s = py_int e (py_or (py_get s ''lookback_hours'' (JInt 24)) (JInt 24))"

definition cross_max_tickers :: "env \<Rightarrow> (string \<times> json) list \<Rightarrow> error + int" where
  "cross_max_tickers e cfg = py_int e (py_or (py_get cfg ''cross_max_tickers'' (JInt 8)) (JInt 8))"

text \<open>
  Lines 44 to 50. \<open>Inr None\<close>: the name is blank and the entry is skipped. An entry that
  is no dict has no \<open>get\<close>.
\<close>

definition read_source :: "env \<Rightarrow> json \<Rightarrow> error + source option" where
  "read_source e s =
     (case s of
        JObj kvs \<Rightarrow>
          let nm = strip (py_str e (py_get kvs ''name'' (JStr []))) in
          if nm = [] then Inr None
          else
            (case source_weight e kvs of
               Inl x \<Rightarrow> Inl x
             | Inr w \<Rightarrow>
                 let md = strip (lower (py_str e (py_get kvs ''mode'' (JStr ''hot'')))) in
                 (case source_limit_posts e kvs of
                    Inl x \<Rightarrow> Inl x
                  | Inr lp \<Rightarrow>
                      (case source_lookback_hours e kvs of
                         Inl x \<Rightarrow> Inl x
                       | Inr hrs \<Rightarrow>
                           Inr (Some \<lparr>name = nm, weight = w, mode = md,
                                      limit_posts = lp, lookback_hours = hrs\<rparr>))))
      | _ \<Rightarrow> Inl AttributeError)"

text \<open>Lines 52 to 62: the listing of the mode, \<open>top\<close> falling back on \<open>hot\<close>.\<close>

definition fetch_posts :: "env \<Rightarrow> source \<Rightarrow> listing_result" where
  "fetch_posts e src =
     (if mode src = ''new'' then listing e (name src) ''new'' (limit_posts src)
      else if mode src = ''top'' then
        (case listing e (name src) ''top'' (limit_posts src) of
           CallRaises \<Rightarrow> listing e (name src) ''hot'' (limit_posts src)
         | r \<Rightarrow> r)
      else listing e (name src) ''hot'' (limit_posts src))"

definition engagement :: "post \<Rightarrow> real" where
  "engagement p =
     (let score = of_int (case p_score p of None \<Rightarrow> 0 | Some x \<Rightarrow> x);
          com = of_int (case num_comments p of None \<Rightarrow> 0 | Some x \<Rightarrow> x)
      in min (1 + ln (1 + max 0 score) + 0.5 * ln (1 + max 0 com)) 12)"

definition post_text :: "post \<Rightarrow> string" where
  "post_text p =
     strip ((case title p of None \<Rightarrow> [] | Some x \<Rightarrow> x) @ [CHR 0x0A]
            @ (case selftext p of None \<Rightarrow> [] | Some x \<Rightarrow> x))"

definition post_url :: "post \<Rightarrow> string" where
  "post_url p =
     ''https://www.reddit.com'' @ (case p_permalink p of None \<Rightarrow> [] | Some l \<Rightarrow> l)"

text \<open>The body of \<open>for t in tickers\<close> (lines 86 to 91).\<close>

definition add_contribution ::
  "real \<Rightarrow> string \<Rightarrow> string \<Rightarrow> string \<Rightarrow> radar_tables \<Rightarrow> radar_tables" where
  "add_contribution inc url src t tabs =
     (let agg = AList.update t ((case map_of (agg_score tabs) t of None \<Rightarrow> 0 | Some x \<Rightarrow> x) + inc)
                  (agg_score tabs)
      in if replaces inc (map_of (best_link tabs) t) then
           \<lparr>agg_score = agg,
            best_link = AList.update t (inc, url) (best_link tabs),
            best_src = AList.update t src (best_src tabs)\<rparr>
         else \<lparr>agg_score = agg, best_link = best_link tabs, best_src = best_src tabs\<rparr>)"

text \<open>
  The body of \<open>for post in it\<close> (lines 65 to 91). A post is skipped when the check raises
  and when it says the post is older than the window.
\<close>

definition process_post :: "string set \<Rightarrow> source \<Rightarrow> int \<times> post \<Rightarrow> radar_tables \<Rightarrow> radar_tables" where
  "process_post stopwords src np tabs =
     (case np of (now, p) \<Rightarrow>
        (case created_utc p of
           None \<Rightarrow> tabs
         | Some ts \<Rightarrow>
             (case within_hours now ts (lookback_hours src) of
                None \<Rightarrow> tabs
              | Some inside \<Rightarrow>
                  if \<not> inside then tabs
                  else
                    let tickers = remdups (extract_tickers (post_text p) stopwords) in
                    if tickers = [] then tabs
                    else fold (add_contribution (weight src * engagement p) (post_url p)
                                 (''r/'' @ name src))
                           tickers tabs)))"

text \<open>The body of \<open>for s in subs\<close> (lines 44 to 91).\<close>

definition process_source :: "env \<Rightarrow> string set \<Rightarrow> json \<Rightarrow> radar_tables \<Rightarrow> error + radar_tables" where
  "process_source e stopwords s tabs =
     (case read_source e s of
        Inl x \<Rightarrow> Inl x
      | Inr None \<Rightarrow> Inr tabs
      | Inr (Some src) \<Rightarrow>
          (case fetch_posts e src of
             Posts ps \<Rightarrow> Inr (fold (process_post stopwords src) ps tabs)
           | _ \<Rightarrow> Inl FetchError))"

fun run_sources :: "env \<Rightarrow> string set \<Rightarrow> json list \<Rightarrow> radar_tables \<Rightarrow> error + radar_tables" where
  "run_sources e stopwords [] tabs = Inr tabs"
| "run_sources e stopwords (s # ss) tabs =
     (case process_source e stopwords s tabs of
        Inl x \<Rightarrow> Inl x
      | Inr tabs' \<Rightarrow> run_sources e stopwords ss tabs')"

record radar_item =
  r_ticker :: string
  r_score :: real
  best_post :: "string option"
  r_best_src :: "string option"

definition rank_radar :: "int \<Rightarrow> radar_tables \<Rightarrow> radar_item list" where
  "rank_radar max_out tabs =
     map (\<lambda>(t, sc).
            \<lparr>r_ticker = t, r_score = round2 sc,
             best_post = (case map_of (best_link tabs) t of None \<Rightarrow> None | Some l \<Rightarrow> Some (snd l)),
             r_best_src = map_of (best_src tabs) t\<rparr>)
         (slice_to max_out (sorted_reverse (\<lambda>kv. (snd kv, fst kv)) (agg_score tabs)))"

text \<open>
  \<open>radar_run\<close> is lines 36 to 91: the output cap and the tables when the loop over
  \<open>cross_subs\<close> ends. \<open>build_cross_sub_radar\<close> is the function itself.
\<close>

definition radar_run :: "env \<Rightarrow> (string \<times> json) list \<Rightarrow> string set \<Rightarrow> error + (int \<times> radar_tables)" where
  "radar_run e cfg stopwords =
     (let subs = py_get cfg ''cross_subs'' (JArr []) in
      case cross_max_tickers e cfg of
        Inl x \<Rightarrow> Inl x
      | Inr max_out \<Rightarrow>
          (case py_iter subs of
             Inl x \<Rightarrow> Inl x
           | Inr ss \<Rightarrow>
               (case run_sources e stopwords ss \<lparr>agg_score = [], best_link = [], best_src = []\<rparr> of
                  Inl x \<Rightarrow> Inl x
                | Inr tabs \<Rightarrow> Inr (max_out, tabs))))"

definition build_cross_sub_radar ::
  "env \<Rightarrow> (string \<times> json) list \<Rightarrow> string set \<Rightarrow> error + radar_item list" where
  "build_cross_sub_radar e cfg stopwords =
     (if \<not> py_truthy (py_get cfg ''cross_subs_enabled'' (JBool False)) then Inr []
      else
        (case radar_run e cfg stopwords of
           Inl x \<Rightarrow> Inl x
         | Inr (max_out, tabs) \<Rightarrow> Inr (rank_radar max_out tabs)))"

section \<open>The specification's notions of a raw match and of the filter's rules\<close>

text \<open>
  \<open>raw_shape m\<close>: \<open>m\<close> is an optional \<open>$\<close> followed by one to five uppercase letters.
  \<open>occurs_at u p m\<close>: \<open>m\<close> is the piece of \<open>u\<close> that starts at position \<open>p\<close>.
  \<open>local_match u p m\<close>: \<open>m\<close> has the shape, stands at \<open>p\<close>, and both lookarounds of the
  regular expression hold there.
\<close>

definition raw_shape :: "string \<Rightarrow> bool" where
  "raw_shape m =
     (let b = strip_dollar m in 1 \<le> length b \<and> length b \<le> 5 \<and> list_all is_upper_letter b)"

definition occurs_at :: "string \<Rightarrow> nat \<Rightarrow> string \<Rightarrow> bool" where
  "occurs_at u p m = (p + length m \<le> length u \<and> take (length m) (drop p u) = m)"

definition local_match :: "string \<Rightarrow> nat \<Rightarrow> string \<Rightarrow> bool" where
  "local_match u p m =
     (raw_shape m \<and> occurs_at u p m \<and> lookbehind_ok u p
      \<and> lookahead_ok (drop (p + length m) u))"

text \<open>
  The rules of the candidacy filter as the specification words them, in its order: the
  result is the canonical ticker of an accepted match and \<open>None\<close> for a rejected one.
\<close>

definition candidacy_rules :: "string \<Rightarrow> string set \<Rightarrow> string option" where
  "candidacy_rules m stopwords =
     (if startswith_dollar m \<and> length (tl m) = 1 then Some (tl m)
      else
        let tok = (if startswith_dollar m then tl m else m) in
        if length tok = 1 then None
        else if tok \<in> stopwords then None
        else if tok \<in> {''AAAA'', ''BBBB'', ''CCCC''} then None
        else Some tok)"

section \<open>An environment and records for the examples\<close>

text \<open>
  The examples need some environment. This one knows two numerals, prints every other
  value as \<open>None\<close>, and serves the same posts for every subreddit and mode.
\<close>

definition example_env :: "(int \<times> post) list \<Rightarrow> env" where
  "example_env ps =
     \<lparr>float_of_str = map_of [(''0.5'', 1 / 2), (''2'', 2)],
      int_of_str = map_of [(''2'', 2), (''48'', 48)],
      str_of = (\<lambda>v. ''None''),
      listing = (\<lambda>nm md n. Posts ps)\<rparr>"

definition example_post :: "real \<Rightarrow> string \<Rightarrow> string \<Rightarrow> post" where
  "example_post ts ttl link =
     \<lparr>created_utc = Some ts, title = Some ttl, selftext = None, p_score = None,
      num_comments = None, p_permalink = Some link\<rparr>"

definition example_comment :: "string \<Rightarrow> string \<Rightarrow> int option \<Rightarrow> string \<Rightarrow> comment" where
  "example_comment who txt sc link =
     \<lparr>c_body = Some txt, c_author = Some who, c_score = sc, c_permalink = Some link\<rparr>"

text \<open>
  A configuration with one source, \<open>wsb\<close>, of weight 1 and the default numbers, and
  a listing of posts that are all read at the same clock reading, 1000 seconds after
  they were created.
\<close>

definition example_cfg :: "(string \<times> json) list" where
  "example_cfg =
     [(''cross_subs_enabled'', JBool True),
      (''cross_subs'', JArr [JObj [(''name'', JStr ''wsb''), (''weight'', JInt 1)]])]"

definition example_listing :: "(string \<times> string) list \<Rightarrow> (int \<times> post) list" where
  "example_listing tls =
     map (\<lambda>tl. (1700000000000000, example_post 1699999000 (fst tl) (snd tl))) tls"

section \<open>The observations of a ticker\<close>

text \<open>
  \<open>keep_best e prev\<close> is what a holder of evidence becomes when the observation \<open>e\<close>
  (a strength and a locator) meets the stored \<open>prev\<close> under the test \<open>replaces\<close>.
\<close>

definition keep_best :: "('s::linorder \<times> 'a) \<Rightarrow> ('s \<times> 'a) option \<Rightarrow> ('s \<times> 'a) option" where
  "keep_best e prev = (if replaces (fst e) prev then Some e else prev)"

text \<open>
  \<open>mentions stopwords t c\<close>: the comment \<open>c\<close> counts and names the ticker \<open>t\<close>.
  \<open>comment_observations stopwords t comments\<close>: score and link of the comments that
  mention \<open>t\<close>, in the order of the thread.
\<close>

definition mentions :: "string set \<Rightarrow> string \<Rightarrow> comment \<Rightarrow> bool" where
  "mentions stopwords t c =
     (case c_body c of
        None \<Rightarrow> False
      | Some b \<Rightarrow> c_author c \<noteq> None \<and> t \<in> set (extract_tickers b stopwords))"

definition comment_observations :: "string set \<Rightarrow> string \<Rightarrow> comment list \<Rightarrow> (int \<times> string) list" where
  "comment_observations stopwords t comments =
     map (\<lambda>c. (comment_score c, comment_link c)) (filter (mentions stopwords t) comments)"

text \<open>
  \<open>post_mentions stopwords src t (now, p)\<close>: the post \<open>p\<close>, checked at \<open>now\<close>, is inside the
  window of the source and names \<open>t\<close>. \<open>radar_observations e stopwords t ss\<close>: the
  weighted contribution, the link and the source name of the posts that mention \<open>t\<close>,
  in the order in which the sources \<open>ss\<close> and their listings are walked.
\<close>

definition post_mentions :: "string set \<Rightarrow> source \<Rightarrow> string \<Rightarrow> int \<times> post \<Rightarrow> bool" where
  "post_mentions stopwords src t np =
     (case created_utc (snd np) of
        None \<Rightarrow> False
      | Some ts \<Rightarrow>
          within_hours (fst np) ts (lookback_hours src) = Some True
          \<and> t \<in> set (extract_tickers (post_text (snd np)) stopwords))"

definition post_observations ::
  "string set \<Rightarrow> source \<Rightarrow> string \<Rightarrow> (int \<times> post) list \<Rightarrow> (real \<times> string \<times> string) list" where
  "post_observations stopwords src t ps =
     map (\<lambda>np. (weight src * engagement (snd np), post_url (snd np), ''r/'' @ name src))
         (filter (post_mentions stopwords src t) ps)"

definition source_observations ::
  "env \<Rightarrow> string set \<Rightarrow> string \<Rightarrow> json \<Rightarrow> (real \<times> string \<times> string) list" where
  "source_observations e stopwords t s =
     (case read_source e s of
        Inr (Some src) \<Rightarrow>
          (case fetch_posts e src of Posts ps \<Rightarrow> post_observations stopwords src t ps | _ \<Rightarrow> [])
      | _ \<Rightarrow> [])"

definition radar_observations ::
  "env \<Rightarrow> string set \<Rightarrow> string \<Rightarrow> json list \<Rightarrow> (real \<times> string \<times> string) list" where
  "radar_observations e stopwords t ss = concat (map (source_observations e stopwords t) ss)"

text \<open>The evidence of a ticker in the tables of the radar: contribution, link and source.\<close>

definition radar_evidence :: "radar_tables \<Rightarrow> string \<Rightarrow> (real \<times> string \<times> string) option" where
  "radar_evidence tabs t =
     (case map_of (best_link tabs) t of
        None \<Rightarrow> None
      | Some l \<Rightarrow>
          (case map_of (best_src tabs) t of None \<Rightarrow> None | Some s \<Rightarrow> Some (fst l, snd l, s)))"

text \<open>
  What holds of the tables throughout a run: the keys of a dict are distinct, and a
  ticker that has an entry in the ranking table has evidence.
\<close>

definition sb_tables_ok :: "sb_tables \<Rightarrow> bool" where
  "sb_tables_ok tabs =
     (distinct (map fst (fst tabs)) \<and> fst ` set (fst tabs) \<subseteq> dom (map_of (snd tabs)))"

definition radar_tables_ok :: "radar_tables \<Rightarrow> bool" where
  "radar_tables_ok tabs =
     (distinct (map fst (agg_score tabs))
      \<and> dom (map_of (best_link tabs)) = dom (map_of (best_src tabs))
      \<and> fst ` set (agg_score tabs) \<subseteq> dom (map_of (best_link tabs)))"

text \<open>Two comments that differ at most in score and permalink.\<close>

definition same_text_and_author :: "comment \<Rightarrow> comment \<Rightarrow> bool" where
  "same_text_and_author c' c = (c_body c' = c_body c \<and> c_author c' = c_author c)"

text \<open>
  \<open>first_max obs\<close>: the first observation of \<open>obs\<close> whose strength is the greatest
  strength in \<open>obs\<close>; \<open>None\<close> when there is no observation.
\<close>

definition first_max :: "('s::linorder \<times> 'a) list \<Rightarrow> ('s \<times> 'a) option" where
  "first_max obs =
     (if obs = [] then None else List.find (\<lambda>ob. fst ob = Max (set (map fst obs))) obs)"

text \<open>The entries of \<open>cross_subs\<close> that the loop of line 43 walks.\<close>

definition radar_sources :: "(string \<times> json) list \<Rightarrow> json list" where
  "radar_sources cfg =
     (case py_iter (py_get cfg ''cross_subs'' (JArr [])) of Inl x \<Rightarrow> [] | Inr ss \<Rightarrow> ss)"

text \<open>The total of a ticker in the table \<open>agg_score\<close>, read as \<open>agg_score.get(t, 0.0)\<close>.\<close>

definition total_score :: "radar_tables \<Rightarrow> string \<Rightarrow> real" where
  "total_score tabs t = (case map_of (agg_score tabs) t of None \<Rightarrow> 0 | Some x \<Rightarrow> x)"

section \<open>Properties of the recognizer\<close>

lemmas text_defs =
  ticker_matches_def finditer.simps upper_def upper_char_def lower_def lower_char_def
  lookbehind_ok_def match_here_def match_letters_def letters_then_boundary_def
  lookahead_ok_def is_upper_letter_def is_digit_def startswith_dollar_def
  extract_tickers_def ticker_of_match_def is_candidate_ticker_def strip_dollar_def

lemma dollar_not_letter [simp]: "\<not> is_upper_letter CHR ''$''" "\<not> is_digit CHR ''$''"
  by (simp_all add: is_upper_letter_def is_digit_def)

lemma find_unique:
  assumes "x \<in> set xs" and "P x" and uniq: "\<And>y. P y \<Longrightarrow> y = x"
  shows "List.find P xs = Some x"
  using assms(1)
proof (induction xs)
  case Nil
  then show ?case by simp
next
  case (Cons a xs)
  show ?case
  proof (cases "P a")
    case True
    then have "a = x" by (rule uniq)
    with True show ?thesis by simp
  next
    case False
    with assms(2) have "a \<noteq> x" by blast
    with Cons False show ?thesis by simp
  qed
qed

lemma find_SomeD: "List.find P xs = Some x \<Longrightarrow> x \<in> set xs \<and> P x"
  by (induction xs) (auto split: if_splits)

lemma letters_then_boundary_unique:
  assumes "letters_then_boundary s k" "letters_then_boundary s k'"
  shows "k = k'"
proof (rule ccontr)
  assume ne: "k \<noteq> k'"
  have aux: False
    if a: "letters_then_boundary s i" and b: "letters_then_boundary s j" and lt: "i < j"
    for i j
  proof -
    from b lt have "i < length s" and "is_upper_letter (s ! i)"
      by (auto simp: letters_then_boundary_def list_all_length)
    moreover have "drop i s = s ! i # drop (Suc i) s"
      using \<open>i < length s\<close> by (simp add: Cons_nth_drop_Suc)
    with a have "\<not> is_upper_letter (s ! i)"
      by (simp add: letters_then_boundary_def lookahead_ok_def)
    ultimately show False by simp
  qed
  from ne assms aux[of k k'] aux[of k' k] show False by (cases "k < k'") auto
qed

lemma match_letters_iff:
  "match_letters s = Some m \<longleftrightarrow>
     (1 \<le> length m \<and> length m \<le> 5 \<and> take (length m) s = m
      \<and> letters_then_boundary s (length m))"
proof
  assume "match_letters s = Some m"
  then obtain k where f: "List.find (letters_then_boundary s) [5, 4, 3, 2, 1] = Some k"
    and m: "m = take k s"
    unfolding match_letters_def by blast
  have k: "k \<in> set [5, 4, 3, 2, 1::nat]" and lb: "letters_then_boundary s k"
    using find_SomeD[OF f] by blast+
  from lb have "k \<le> length s" by (simp add: letters_then_boundary_def)
  then have len: "length m = k" using m by simp
  from k have "1 \<le> k \<and> k \<le> 5" by auto
  then show "1 \<le> length m \<and> length m \<le> 5 \<and> take (length m) s = m
      \<and> letters_then_boundary s (length m)"
    unfolding len using m lb by simp
next
  assume a: "1 \<le> length m \<and> length m \<le> 5 \<and> take (length m) s = m
      \<and> letters_then_boundary s (length m)"
  then have "length m = 1 \<or> length m = 2 \<or> length m = 3 \<or> length m = 4 \<or> length m = 5"
    by arith
  then have "length m \<in> set [5, 4, 3, 2, 1::nat]" by auto
  moreover have "letters_then_boundary s (length m)" using a by simp
  moreover have "\<And>y. letters_then_boundary s y \<Longrightarrow> y = length m"
    using a letters_then_boundary_unique by blast
  ultimately have "List.find (letters_then_boundary s) [5, 4, 3, 2, 1] = Some (length m)"
    by (rule find_unique)
  moreover have "take (length m) s = m" using a by simp
  ultimately show "match_letters s = Some m" by (simp add: match_letters_def)
qed

lemma raw_shape_nonempty: "raw_shape m \<Longrightarrow> m \<noteq> []"
  by (auto simp: raw_shape_def strip_dollar_def startswith_dollar_def)

lemma raw_shape_chars:
  "raw_shape m \<Longrightarrow> c \<in> set m \<Longrightarrow> c = CHR ''$'' \<or> is_upper_letter c"
  by (cases m)
     (auto simp: raw_shape_def strip_dollar_def startswith_dollar_def list_all_iff
           split: if_splits)

lemma match_here_iff:
  "match_here s = Some m \<longleftrightarrow>
     (raw_shape m \<and> length m \<le> length s \<and> take (length m) s = m
      \<and> lookahead_ok (drop (length m) s))"
  (is "?L \<longleftrightarrow> ?R")
proof
  assume L: ?L
  show ?R
  proof (cases "startswith_dollar s")
    case True
    then obtain s' where s: "s = CHR ''$'' # s'"
      by (cases s) (auto simp: startswith_dollar_def)
    show ?thesis
    proof (cases "match_letters s'")
      case None
      with L True s have "match_letters s = Some m" by (simp add: match_here_def)
      then have "1 \<le> length m" "take (length m) s = m" "letters_then_boundary s (length m)"
        by (simp_all add: match_letters_iff)
      then have "is_upper_letter (hd s)"
        by (cases m) (auto simp: letters_then_boundary_def s)
      with s show ?thesis by simp
    next
      case (Some b)
      with L True s have m: "m = CHR ''$'' # b" by (simp add: match_here_def)
      from Some have b: "1 \<le> length b" "length b \<le> 5" "take (length b) s' = b"
        "letters_then_boundary s' (length b)"
        by (simp_all add: match_letters_iff)
      then show ?thesis
        by (simp add: m s raw_shape_def strip_dollar_def startswith_dollar_def
            letters_then_boundary_def)
    qed
  next
    case False
    with L have ml: "match_letters s = Some m" by (simp add: match_here_def)
    then have b: "1 \<le> length m" "length m \<le> 5" "take (length m) s = m"
      "letters_then_boundary s (length m)"
      by (simp_all add: match_letters_iff)
    then have "list_all is_upper_letter m" by (simp add: letters_then_boundary_def)
    with b(1) have "\<not> startswith_dollar m"
      by (cases m) (auto simp: startswith_dollar_def)
    with b \<open>list_all is_upper_letter m\<close> show ?thesis
      by (simp add: raw_shape_def strip_dollar_def letters_then_boundary_def)
  qed
next
  assume R: ?R
  show ?L
  proof (cases "startswith_dollar m")
    case True
    then obtain b where m: "m = CHR ''$'' # b"
      by (cases m) (auto simp: startswith_dollar_def)
    from R m obtain s' where s: "s = CHR ''$'' # s'"
      by (cases s) auto
    from R have "match_letters s' = Some b"
      by (simp add: m s match_letters_iff raw_shape_def strip_dollar_def startswith_dollar_def
          letters_then_boundary_def)
    then show ?thesis by (simp add: match_here_def s m startswith_dollar_def)
  next
    case False
    with R have shape: "1 \<le> length m" "length m \<le> 5" "list_all is_upper_letter m"
      by (simp_all add: raw_shape_def strip_dollar_def)
    with R have ml: "match_letters s = Some m"
      by (simp add: match_letters_iff letters_then_boundary_def)
    from shape R have "is_upper_letter (hd s)"
      by (cases m; cases s) auto
    then have "\<not> startswith_dollar s"
      by (cases s) (auto simp: startswith_dollar_def)
    with ml show ?thesis by (simp add: match_here_def)
  qed
qed

lemma match_here_drop_iff:
  "match_here (drop p u) = Some m \<longleftrightarrow>
     (raw_shape m \<and> occurs_at u p m \<and> lookahead_ok (drop (p + length m) u))"
proof (cases "p \<le> length u")
  case True
  then show ?thesis
    by (auto simp: match_here_iff occurs_at_def add.commute)
next
  case False
  then have "drop p u = []" by simp
  moreover have "\<not> raw_shape m \<or> \<not> occurs_at u p m"
    using False by (auto simp: occurs_at_def)
  ultimately show ?thesis
    using match_here_nonempty[of "[]" m] by auto
qed

lemma finditer_sound:
  "(q, m) \<in> set (finditer u p) \<Longrightarrow> p \<le> q \<and> local_match u q m"
proof (induction u p rule: finditer.induct)
  case (1 u p)
  show ?case
  proof (cases "length u \<le> p")
    case True
    with "1.prems" show ?thesis by (simp add: finditer.simps)
  next
    case False
    show ?thesis
    proof (cases "lookbehind_ok u p")
      case lb: True
      show ?thesis
      proof (cases "match_here (drop p u)")
        case None
        with False lb "1.prems" have "(q, m) \<in> set (finditer u (p + 1))"
          by (simp add: finditer.simps[of u p])
        with "1.IH"(1)[OF False lb None] show ?thesis by simp
      next
        case (Some m0)
        with False lb "1.prems" have
          "(q, m) = (p, m0) \<or> (q, m) \<in> set (finditer u (p + length m0))"
          by (simp add: finditer.simps[of u p])
        then show ?thesis
        proof
          assume "(q, m) = (p, m0)"
          with Some lb show ?thesis
            by (simp add: local_match_def match_here_drop_iff)
        next
          assume "(q, m) \<in> set (finditer u (p + length m0))"
          with "1.IH"(2)[OF False lb Some] show ?thesis by simp
        qed
      qed
    next
      case nlb: False
      with False "1.prems" have "(q, m) \<in> set (finditer u (p + 1))"
        by (simp add: finditer.simps[of u p])
      with "1.IH"(3)[OF False nlb] show ?thesis by simp
    qed
  qed
qed

lemma finditer_complete:
  "local_match u q m \<Longrightarrow> p \<le> q \<Longrightarrow> (q, m) \<in> set (finditer u p)"
proof (induction u p rule: finditer.induct)
  case (1 u p)
  from "1.prems" have shape: "raw_shape m" and occ: "occurs_at u q m"
    and lbq: "lookbehind_ok u q" and here: "match_here (drop q u) = Some m"
    by (simp_all add: local_match_def match_here_drop_iff)
  from shape have "m \<noteq> []" by (rule raw_shape_nonempty)
  with occ have qlt: "q < length u" by (cases m) (auto simp: occurs_at_def)
  with "1.prems" have False: "\<not> length u \<le> p" by simp
  show ?case
  proof (cases "q = p")
    case True
    with lbq here False show ?thesis by (simp add: finditer.simps[of u p])
  next
    case ne: False
    with "1.prems" have plt: "p < q" by simp
    show ?thesis
    proof (cases "lookbehind_ok u p")
      case lb: True
      show ?thesis
      proof (cases "match_here (drop p u)")
        case None
        from "1.IH"(1)[OF False lb None "1.prems"(1)] plt
        have "(q, m) \<in> set (finditer u (p + 1))" by simp
        with False lb None show ?thesis by (simp add: finditer.simps[of u p])
      next
        case (Some m0)
        then have s0: "raw_shape m0" and o0: "occurs_at u p m0"
          by (simp_all add: match_here_drop_iff)
        have "p + length m0 \<le> q"
        proof (rule ccontr)
          assume "\<not> p + length m0 \<le> q"
          with plt have i: "q - 1 - p < length m0" and qp: "p \<le> q - 1" by auto
          from o0 have len0: "p + length m0 \<le> length u"
            and tk: "take (length m0) (drop p u) = m0"
            by (simp_all add: occurs_at_def)
          have idx: "p + (q - 1 - p) = q - 1" using qp by arith
          have "take (length m0) (drop p u) ! (q - 1 - p) = u ! (p + (q - 1 - p))"
            using i len0 by simp
          then have "take (length m0) (drop p u) ! (q - 1 - p) = u ! (q - 1)"
            by (simp only: idx)
          then have "m0 ! (q - 1 - p) = u ! (q - 1)" by (simp only: tk)
          then have "u ! (q - 1) \<in> set m0" using i by (metis nth_mem)
          with s0 have "u ! (q - 1) = CHR ''$'' \<or> is_upper_letter (u ! (q - 1))"
            by (rule raw_shape_chars)
          with lbq plt show False by (auto simp: lookbehind_ok_def)
        qed
        from "1.IH"(2)[OF False lb Some "1.prems"(1) this]
        show ?thesis using False lb Some by (simp add: finditer.simps[of u p])
      qed
    next
      case nlb: False
      from "1.IH"(3)[OF False nlb "1.prems"(1)] plt
      have "(q, m) \<in> set (finditer u (p + 1))" by simp
      with False nlb show ?thesis by (simp add: finditer.simps[of u p])
    qed
  qed
qed

lemma finditer_iff: "(q, m) \<in> set (finditer u 0) \<longleftrightarrow> local_match u q m"
  using finditer_sound[of q m u 0] finditer_complete[of u q m 0] by auto

lemma ticker_matches_shape: "m \<in> set (ticker_matches u) \<Longrightarrow> raw_shape m"
  by (auto simp: ticker_matches_def finditer_iff local_match_def)

lemma upper_char_fixed_all:
  "list_all (\<lambda>c. upper_char c = c) ''$ABCDEFGHIJKLMNOPQRSTUVWXYZ''"
  by (simp add: upper_char_def)
lemma upper_char_fixed: "c = CHR ''$'' \<or> is_upper_letter c \<Longrightarrow> upper_char c = c"
proof -
  assume "c = CHR ''$'' \<or> is_upper_letter c"
  then have "c \<in> set ''$ABCDEFGHIJKLMNOPQRSTUVWXYZ''"
    unfolding is_upper_letter_def by auto
  with upper_char_fixed_all show ?thesis
    unfolding list_all_iff by blast
qed

lemma raw_shape_upper: "raw_shape m \<Longrightarrow> upper m = m"
  unfolding upper_def by (rule map_idI) (blast intro: upper_char_fixed dest: raw_shape_chars)

lemma set_map_filter_iff: "y \<in> set (List.map_filter f xs) \<longleftrightarrow> (\<exists>x\<in>set xs. f x = Some y)"
  unfolding List.map_filter_def by force

lemma sample_matches:
  "ticker_matches (upper ''NASA1 AAPL, $F said TSLA2day'') = [''AAPL'', ''$F'', ''SAID'']"
  by (simp add: text_defs)

section \<open>Sorting, slices and folds\<close>

lemma length_sorted_reverse [simp]: "length (sorted_reverse key xs) = length xs"
  by (simp add: sorted_reverse_def)

lemma set_sorted_reverse [simp]: "set (sorted_reverse key xs) = set xs"
  by (simp add: sorted_reverse_def)

lemma distinct_sorted_reverse [simp]: "distinct (sorted_reverse key xs) = distinct xs"
  by (simp add: sorted_reverse_def)

lemma sorted_reverse_nth:
  assumes "i \<le> j" and "j < length xs"
  shows "key (sorted_reverse key xs ! j) \<le> key (sorted_reverse key xs ! i)"
proof -
  let ?ys = "sort_key key (rev xs)"
  have len: "length ?ys = length xs" by simp
  have srt: "sorted (map key ?ys)" by (rule sorted_sort_key)
  have j: "rev ?ys ! j = ?ys ! (length xs - Suc j)"
    using assms len by (simp add: rev_nth)
  have i: "rev ?ys ! i = ?ys ! (length xs - Suc i)"
    using assms len by (simp add: rev_nth)
  have "map key ?ys ! (length xs - Suc j) \<le> map key ?ys ! (length xs - Suc i)"
    using srt assms len by (intro sorted_nth_mono) auto
  then have "key (?ys ! (length xs - Suc j)) \<le> key (?ys ! (length xs - Suc i))"
    using assms len by simp
  then show ?thesis by (simp only: sorted_reverse_def i j)
qed

lemma slice_to_take: "\<exists>k. slice_to n xs = take k xs"
  by (auto simp: slice_to_def)

lemma ranked_order:
  assumes d: "distinct (map fst xs)" and ij: "i < j"
    and j: "j < length (slice_to n (sorted_reverse key xs))"
  shows "key (slice_to n (sorted_reverse key xs) ! j)
      \<le> key (slice_to n (sorted_reverse key xs) ! i)
    \<and> fst (slice_to n (sorted_reverse key xs) ! i)
      \<noteq> fst (slice_to n (sorted_reverse key xs) ! j)
    \<and> slice_to n (sorted_reverse key xs) ! i \<in> set xs
    \<and> slice_to n (sorted_reverse key xs) ! j \<in> set xs"
proof -
  let ?s = "sorted_reverse key xs"
  obtain k where k: "slice_to n ?s = take k ?s" using slice_to_take by blast
  from j k have jk: "j < k" and jl: "j < length xs" by simp_all
  with ij have ik: "i < k" and il: "i < length xs" by simp_all
  have nj: "slice_to n ?s ! j = ?s ! j" using k jk by simp
  have ni: "slice_to n ?s ! i = ?s ! i" using k ik by simp
  have ord: "key (?s ! j) \<le> key (?s ! i)"
    using ij jl by (intro sorted_reverse_nth) auto
  from d have dx: "distinct xs" and inj: "inj_on fst (set xs)"
    by (simp_all add: distinct_map)
  have mi: "?s ! i \<in> set xs" using il by (metis length_sorted_reverse nth_mem set_sorted_reverse)
  have mj: "?s ! j \<in> set xs" using jl by (metis length_sorted_reverse nth_mem set_sorted_reverse)
  have "?s ! i \<noteq> ?s ! j"
    using dx ij il jl by (simp add: nth_eq_iff_index_eq)
  with inj mi mj have "fst (?s ! i) \<noteq> fst (?s ! j)"
    by (auto dest: inj_onD)
  with ord mi mj show ?thesis by (simp only: ni nj) simp
qed

lemma fold_invariant:
  assumes "\<And>x s. P s \<Longrightarrow> P (f x s)" and "P s"
  shows "P (fold f xs s)"
  using assms(2) by (induction xs arbitrary: s) (simp_all add: assms(1))

section \<open>The holder of the best evidence\<close>

lemma keep_best_None [simp]: "keep_best e None = Some e"
  by (simp add: keep_best_def replaces_def)

lemma keep_best_Some [simp]:
  "keep_best e (Some pr) = (if fst pr < fst e then Some e else Some pr)"
  by (simp add: keep_best_def replaces_def)

lemma keep_best_twice [simp]: "keep_best e (keep_best e prev) = keep_best e prev"
  by (cases prev) auto

lemma fold_keep_best_snoc:
  "fold keep_best (obs @ [x]) h = keep_best x (fold keep_best obs h)"
  by simp

lemma first_strongest:
  "obs \<noteq> [] \<Longrightarrow>
     \<exists>pre e post. obs = pre @ e # post \<and> (\<forall>ob\<in>set pre. fst ob < fst e)
       \<and> (\<forall>ob\<in>set post. fst ob \<le> fst e) \<and> fold keep_best obs None = Some e"
proof (induction obs rule: rev_induct)
  case Nil
  then show ?case by simp
next
  case (snoc x xs)
  show ?case
  proof (cases "xs = []")
    case True
    have "[] @ [x] = [] @ x # [] \<and> (\<forall>ob\<in>set []. fst ob < fst x)
        \<and> (\<forall>ob\<in>set []. fst ob \<le> fst x) \<and> fold keep_best ([] @ [x]) None = Some x"
      by simp
    then show ?thesis unfolding True by blast
  next
    case False
    from snoc.IH[OF False] obtain pre e post where d: "xs = pre @ e # post"
      and lt: "\<forall>ob\<in>set pre. fst ob < fst e" and le: "\<forall>ob\<in>set post. fst ob \<le> fst e"
      and f: "fold keep_best xs None = Some e"
      by blast
    show ?thesis
    proof (cases "fst e < fst x")
      case True
      have r: "fold keep_best (xs @ [x]) None = Some x"
        using f True by simp
      have all: "\<forall>ob\<in>set xs. fst ob < fst x"
      proof
        fix ob
        assume "ob \<in> set xs"
        then consider "ob \<in> set pre" | "ob = e" | "ob \<in> set post"
          unfolding d by auto
        then show "fst ob < fst x"
        proof cases
          case 1
          with lt have "fst ob < fst e" by blast
          then show ?thesis using True by (rule less_trans)
        next
          case 2
          with True show ?thesis by simp
        next
          case 3
          with le have "fst ob \<le> fst e" by blast
          then show ?thesis using True by (rule le_less_trans)
        qed
      qed
      have "xs @ [x] = xs @ x # [] \<and> (\<forall>ob\<in>set xs. fst ob < fst x)
          \<and> (\<forall>ob\<in>set []. fst ob \<le> fst x) \<and> fold keep_best (xs @ [x]) None = Some x"
        using all r by simp
      then show ?thesis by blast
    next
      case nlt: False
      have r: "fold keep_best (xs @ [x]) None = Some e"
        using f nlt by simp
      have d': "xs @ [x] = pre @ e # (post @ [x])" unfolding d by simp
      have le': "\<forall>ob\<in>set (post @ [x]). fst ob \<le> fst e"
        using le nlt by auto
      from d' lt le' r
      have "xs @ [x] = pre @ e # (post @ [x]) \<and> (\<forall>ob\<in>set pre. fst ob < fst e)
          \<and> (\<forall>ob\<in>set (post @ [x]). fst ob \<le> fst e)
          \<and> fold keep_best (xs @ [x]) None = Some e"
        by blast
      then show ?thesis by blast
    qed
  qed
qed

section \<open>The tables of the scoreboard\<close>

lemma dom_map_of_update: "dom (map_of (AList.update k v al)) = insert k (dom (map_of al))"
  by (simp add: AList.update_conv')

lemma note_ticker_fst:
  "fst (note_ticker a sc l t tabs) =
     AList.update t (insert a (case map_of (fst tabs) t of None \<Rightarrow> {} | Some A \<Rightarrow> A)) (fst tabs)"
  by (cases tabs) (simp add: note_ticker_def)

lemma note_ticker_snd:
  "snd (note_ticker a sc l t tabs) =
     (if replaces sc (map_of (snd tabs) t) then AList.update t (sc, l) (snd tabs) else snd tabs)"
  by (cases tabs) (simp add: note_ticker_def)

lemma note_ticker_evidence:
  "map_of (snd (note_ticker a sc l t tabs)) t' =
     (if t' = t then keep_best (sc, l) (map_of (snd tabs) t) else map_of (snd tabs) t')"
  by (simp add: note_ticker_snd keep_best_def AList.update_conv')

lemma fold_note_evidence:
  "map_of (snd (fold (note_ticker a sc l) ts tabs)) t =
     (if t \<in> set ts then keep_best (sc, l) (map_of (snd tabs) t) else map_of (snd tabs) t)"
proof (induction ts arbitrary: tabs)
  case Nil
  then show ?case by simp
next
  case (Cons x xs)
  show ?case
    by (simp add: Cons.IH note_ticker_evidence)
qed

lemma scan_comment_evidence:
  "map_of (snd (scan_comment stopwords c tabs)) t =
     (if mentions stopwords t c
      then keep_best (comment_score c, comment_link c) (map_of (snd tabs) t)
      else map_of (snd tabs) t)"
proof (cases "c_body c")
  case None
  then show ?thesis by (simp add: scan_comment_def mentions_def)
next
  case (Some b)
  show ?thesis
  proof (cases "c_author c")
    case None
    with Some show ?thesis by (simp add: scan_comment_def mentions_def)
  next
    case (Some a)
    show ?thesis
    proof (cases "extract_tickers b stopwords = []")
      case True
      with Some \<open>c_body c = Some b\<close> show ?thesis
        by (simp add: scan_comment_def mentions_def)
    next
      case False
      with Some \<open>c_body c = Some b\<close> show ?thesis
        by (simp add: scan_comment_def mentions_def fold_note_evidence)
    qed
  qed
qed

lemma fold_scan_evidence:
  "map_of (snd (fold (scan_comment stopwords) cs tabs)) t =
     fold keep_best (comment_observations stopwords t cs) (map_of (snd tabs) t)"
  by (induction cs arbitrary: tabs)
     (simp_all add: comment_observations_def scan_comment_evidence)

lemma scoreboard_evidence:
  "map_of (snd (scoreboard_tables stopwords cs)) t =
     fold keep_best (comment_observations stopwords t cs) None"
  by (simp add: scoreboard_tables_def fold_scan_evidence)

lemma note_ticker_ok: "sb_tables_ok tabs \<Longrightarrow> sb_tables_ok (note_ticker a sc l t tabs)"
proof -
  assume ok: "sb_tables_ok tabs"
  have d: "distinct (map fst (fst (note_ticker a sc l t tabs)))"
    using ok by (simp add: note_ticker_fst sb_tables_ok_def AList.distinct_update)
  have k: "fst ` set (fst (note_ticker a sc l t tabs)) = insert t (fst ` set (fst tabs))"
    by (simp add: note_ticker_fst AList.dom_update)
  have e: "dom (map_of (snd (note_ticker a sc l t tabs))) = insert t (dom (map_of (snd tabs)))"
  proof (cases "replaces sc (map_of (snd tabs) t)")
    case True
    then show ?thesis by (simp add: note_ticker_snd dom_map_of_update)
  next
    case False
    then obtain pr where "map_of (snd tabs) t = Some pr"
      by (cases "map_of (snd tabs) t") (simp_all add: replaces_def)
    then have "t \<in> dom (map_of (snd tabs))" by blast
    then have "insert t (dom (map_of (snd tabs))) = dom (map_of (snd tabs))"
      by (rule insert_absorb)
    with False show ?thesis by (simp add: note_ticker_snd)
  qed
  from ok have "fst ` set (fst tabs) \<subseteq> dom (map_of (snd tabs))"
    by (simp add: sb_tables_ok_def)
  then have "insert t (fst ` set (fst tabs)) \<subseteq> insert t (dom (map_of (snd tabs)))"
    by (rule insert_mono)
  then have "fst ` set (fst (note_ticker a sc l t tabs))
      \<subseteq> dom (map_of (snd (note_ticker a sc l t tabs)))"
    by (simp only: k e)
  with d show ?thesis
    unfolding sb_tables_ok_def by (rule conjI)
qed

lemma scan_comment_ok: "sb_tables_ok tabs \<Longrightarrow> sb_tables_ok (scan_comment stopwords c tabs)"
proof -
  assume ok: "sb_tables_ok tabs"
  have f: "sb_tables_ok (fold (note_ticker a sc l) ts tabs)" for a sc l ts
    using note_ticker_ok ok by (rule fold_invariant)
  show ?thesis
    using ok f by (simp add: scan_comment_def Let_def split: option.splits)
qed

lemma scoreboard_tables_ok: "sb_tables_ok (scoreboard_tables stopwords cs)"
proof -
  have "sb_tables_ok ([], [])" by (simp add: sb_tables_ok_def)
  with scan_comment_ok show ?thesis
    unfolding scoreboard_tables_def by (rule fold_invariant)
qed

lemma fold_note_fst:
  "fst tabs = fst tabs' \<Longrightarrow>
     fst (fold (note_ticker a sc l) ts tabs) = fst (fold (note_ticker a sc' l') ts tabs')"
proof (induction ts arbitrary: tabs tabs')
  case Nil
  then show ?case by simp
next
  case (Cons x xs)
  have "fst (note_ticker a sc l x tabs) = fst (note_ticker a sc' l' x tabs')"
    using Cons.prems by (simp add: note_ticker_fst)
  then show ?case by (simp add: Cons.IH)
qed

lemma scan_comment_fst:
  assumes "fst tabs = fst tabs'" and "same_text_and_author c' c"
  shows "fst (scan_comment stopwords c' tabs) = fst (scan_comment stopwords c tabs')"
proof -
  from assms(2) have b: "c_body c' = c_body c" and a: "c_author c' = c_author c"
    by (simp_all add: same_text_and_author_def)
  show ?thesis
    using assms(1) fold_note_fst[OF assms(1)]
    by (simp add: scan_comment_def a b Let_def split: option.splits)
qed

lemma fold_scan_fst:
  "list_all2 same_text_and_author cs' cs \<Longrightarrow> fst tabs = fst tabs' \<Longrightarrow>
     fst (fold (scan_comment stopwords) cs' tabs) = fst (fold (scan_comment stopwords) cs tabs')"
proof (induction cs' cs arbitrary: tabs tabs' rule: list_all2_induct)
  case Nil
  then show ?case by simp
next
  case (Cons c' cs' c cs)
  have "fst (scan_comment stopwords c' tabs) = fst (scan_comment stopwords c tabs')"
    using Cons.prems Cons.hyps(1) by (rule scan_comment_fst)
  then show ?case by (simp add: Cons.IH)
qed

lemma build_scoreboard_as_map:
  "build_scoreboard cs stopwords n =
     map (\<lambda>kv. \<lparr>ticker = fst kv, unique_authors = card (snd kv),
                 best_comment =
                   (case map_of (snd (scoreboard_tables stopwords cs)) (fst kv) of
                      None \<Rightarrow> None
                    | Some best \<Rightarrow> Some (snd best))\<rparr>)
         (slice_to n (sorted_reverse (\<lambda>kv. (card (snd kv), fst kv))
                        (fst (scoreboard_tables stopwords cs))))"
  by (cases "scoreboard_tables stopwords cs") (simp add: build_scoreboard_def case_prod_beta)

section \<open>The tables of the radar\<close>

lemma add_contribution_agg:
  "agg_score (add_contribution inc url src t tabs) =
     AList.update t ((case map_of (agg_score tabs) t of None \<Rightarrow> 0 | Some x \<Rightarrow> x) + inc)
       (agg_score tabs)"
  by (simp add: add_contribution_def Let_def)

lemma add_contribution_link:
  "map_of (best_link (add_contribution inc url src t tabs)) t' =
     (if t' = t then keep_best (inc, url) (map_of (best_link tabs) t)
      else map_of (best_link tabs) t')"
  by (simp add: add_contribution_def Let_def keep_best_def AList.update_conv')

lemma add_contribution_src:
  "map_of (best_src (add_contribution inc url src t tabs)) t' =
     (if t' = t \<and> replaces inc (map_of (best_link tabs) t) then Some src
      else map_of (best_src tabs) t')"
  by (simp add: add_contribution_def Let_def AList.update_conv')

lemma add_contribution_evidence:
  assumes ok: "radar_tables_ok tabs"
  shows "radar_evidence (add_contribution inc url src t tabs) t' =
     (if t' = t then keep_best (inc, url, src) (radar_evidence tabs t)
      else radar_evidence tabs t')"
proof (cases "t' = t")
  case False
  then show ?thesis
    by (simp add: radar_evidence_def add_contribution_link add_contribution_src
        cong: option.case_cong)
next
  case True
  from ok have dm: "dom (map_of (best_link tabs)) = dom (map_of (best_src tabs))"
    by (simp add: radar_tables_ok_def)
  show ?thesis
  proof (cases "map_of (best_link tabs) t")
    case None
    then have "radar_evidence tabs t = None" by (simp add: radar_evidence_def)
    with None True show ?thesis
      by (simp add: radar_evidence_def add_contribution_link add_contribution_src
          replaces_def)
  next
    case (Some l)
    then have "t \<in> dom (map_of (best_src tabs))" using dm by blast
    then obtain s where s: "map_of (best_src tabs) t = Some s" by blast
    with Some have ev: "radar_evidence tabs t = Some (fst l, snd l, s)"
      by (simp add: radar_evidence_def)
    show ?thesis
      unfolding True ev
      by (simp add: radar_evidence_def add_contribution_link add_contribution_src
          replaces_def Some s)
  qed
qed

lemma add_contribution_ok:
  assumes ok: "radar_tables_ok tabs"
  shows "radar_tables_ok (add_contribution inc url src t tabs)"
proof -
  let ?n = "add_contribution inc url src t tabs"
  from ok have "distinct (map fst (agg_score tabs))
      \<and> dom (map_of (best_link tabs)) = dom (map_of (best_src tabs))
      \<and> fst ` set (agg_score tabs) \<subseteq> dom (map_of (best_link tabs))"
    unfolding radar_tables_ok_def .
  then have ds: "distinct (map fst (agg_score tabs))"
    and dm: "dom (map_of (best_link tabs)) = dom (map_of (best_src tabs))"
    and sub: "fst ` set (agg_score tabs) \<subseteq> dom (map_of (best_link tabs))"
    by blast+
  have d: "distinct (map fst (agg_score ?n))"
    using ds by (simp add: add_contribution_agg AList.distinct_update)
  have k: "fst ` set (agg_score ?n) = insert t (fst ` set (agg_score tabs))"
    by (simp add: add_contribution_agg AList.dom_update)
  have l: "dom (map_of (best_link ?n)) = insert t (dom (map_of (best_link tabs)))"
    and s: "dom (map_of (best_src ?n)) = insert t (dom (map_of (best_src tabs)))"
  proof -
    show "dom (map_of (best_link ?n)) = insert t (dom (map_of (best_link tabs)))"
    proof (cases "replaces inc (map_of (best_link tabs) t)")
      case True
      then show ?thesis by (simp add: add_contribution_def Let_def dom_map_of_update)
    next
      case False
      then obtain pr where "map_of (best_link tabs) t = Some pr"
        by (cases "map_of (best_link tabs) t") (simp_all add: replaces_def)
      then have "t \<in> dom (map_of (best_link tabs))" by blast
      then have "insert t (dom (map_of (best_link tabs))) = dom (map_of (best_link tabs))"
        by (rule insert_absorb)
      with False show ?thesis by (simp add: add_contribution_def Let_def)
    qed
    show "dom (map_of (best_src ?n)) = insert t (dom (map_of (best_src tabs)))"
    proof (cases "replaces inc (map_of (best_link tabs) t)")
      case True
      then show ?thesis by (simp add: add_contribution_def Let_def dom_map_of_update)
    next
      case False
      then obtain pr where "map_of (best_link tabs) t = Some pr"
        by (cases "map_of (best_link tabs) t") (simp_all add: replaces_def)
      then have "t \<in> dom (map_of (best_link tabs))" by blast
      then have "t \<in> dom (map_of (best_src tabs))" by (simp only: dm)
      then have "insert t (dom (map_of (best_src tabs))) = dom (map_of (best_src tabs))"
        by (rule insert_absorb)
      with False show ?thesis by (simp add: add_contribution_def Let_def)
    qed
  qed
  have e: "dom (map_of (best_link ?n)) = dom (map_of (best_src ?n))"
    by (simp only: l s dm)
  from sub have "insert t (fst ` set (agg_score tabs)) \<subseteq> insert t (dom (map_of (best_link tabs)))"
    by (rule insert_mono)
  then have "fst ` set (agg_score ?n) \<subseteq> dom (map_of (best_link ?n))"
    by (simp only: k l)
  with d e show ?thesis
    unfolding radar_tables_ok_def by (intro conjI)
qed

lemma fold_add_ok:
  "radar_tables_ok tabs \<Longrightarrow> radar_tables_ok (fold (add_contribution inc url src) ts tabs)"
  using add_contribution_ok by (rule fold_invariant)

lemma fold_add_evidence:
  "radar_tables_ok tabs \<Longrightarrow>
     radar_evidence (fold (add_contribution inc url src) ts tabs) t =
       (if t \<in> set ts then keep_best (inc, url, src) (radar_evidence tabs t)
        else radar_evidence tabs t)"
proof (induction ts arbitrary: tabs)
  case Nil
  then show ?case by simp
next
  case (Cons x xs)
  from Cons.prems have ok': "radar_tables_ok (add_contribution inc url src x tabs)"
    by (rule add_contribution_ok)
  show ?case
    by (simp add: Cons.IH[OF ok'] add_contribution_evidence[OF Cons.prems])
qed

lemma process_post_ok:
  "radar_tables_ok tabs \<Longrightarrow> radar_tables_ok (process_post stopwords src np tabs)"
  by (cases np)
     (simp add: process_post_def Let_def fold_add_ok split: option.splits)

lemma process_post_evidence:
  assumes ok: "radar_tables_ok tabs"
  shows "radar_evidence (process_post stopwords src np tabs) t =
     (if post_mentions stopwords src t np
      then keep_best (weight src * engagement (snd np), post_url (snd np), ''r/'' @ name src)
             (radar_evidence tabs t)
      else radar_evidence tabs t)"
proof (cases np)
  case (Pair now p)
  show ?thesis
  proof (cases "created_utc p")
    case None
    then show ?thesis by (simp add: Pair process_post_def post_mentions_def)
  next
    case (Some ts)
    show ?thesis
    proof (cases "within_hours now ts (lookback_hours src) = Some True")
      case False
      then have "process_post stopwords src np tabs = tabs"
        by (cases "within_hours now ts (lookback_hours src)")
           (simp_all add: Pair Some process_post_def)
      with False show ?thesis by (simp add: Pair Some post_mentions_def)
    next
      case True
      show ?thesis
      proof (cases "extract_tickers (post_text p) stopwords = []")
        case e: True
        then show ?thesis by (simp add: Pair Some True process_post_def post_mentions_def)
      next
        case e: False
        then show ?thesis
          by (simp add: Pair Some True process_post_def post_mentions_def
              fold_add_evidence[OF ok])
      qed
    qed
  qed
qed

lemma fold_post_evidence:
  "radar_tables_ok tabs \<Longrightarrow>
     radar_tables_ok (fold (process_post stopwords src) ps tabs)
     \<and> radar_evidence (fold (process_post stopwords src) ps tabs) t =
         fold keep_best (post_observations stopwords src t ps) (radar_evidence tabs t)"
proof (induction ps arbitrary: tabs)
  case Nil
  then show ?case by (simp add: post_observations_def)
next
  case (Cons np ps)
  from Cons.prems have ok': "radar_tables_ok (process_post stopwords src np tabs)"
    by (rule process_post_ok)
  have obs: "post_observations stopwords src t (np # ps) =
      (if post_mentions stopwords src t np
       then [(weight src * engagement (snd np), post_url (snd np), ''r/'' @ name src)]
       else []) @ post_observations stopwords src t ps"
    by (simp add: post_observations_def)
  show ?case
    using Cons.IH[OF ok']
    by (simp add: obs process_post_evidence[OF Cons.prems])
qed

lemma process_source_evidence:
  assumes run: "process_source e stopwords s tabs = Inr tabs'" and ok: "radar_tables_ok tabs"
  shows "radar_tables_ok tabs'
     \<and> radar_evidence tabs' t =
         fold keep_best (source_observations e stopwords t s) (radar_evidence tabs t)"
proof (cases "read_source e s")
  case (Inl x)
  with run show ?thesis by (simp add: process_source_def)
next
  case (Inr r)
  show ?thesis
  proof (cases r)
    case None
    with run Inr ok show ?thesis
      by (simp add: process_source_def source_observations_def)
  next
    case (Some src)
    show ?thesis
    proof (cases "fetch_posts e src")
      case (Posts ps)
      with run Inr Some have "tabs' = fold (process_post stopwords src) ps tabs"
        by (simp add: process_source_def)
      with fold_post_evidence[OF ok, of stopwords src ps t] Inr Some Posts show ?thesis
        by (simp add: source_observations_def)
    qed (use run Inr Some in \<open>simp_all add: process_source_def\<close>)
  qed
qed

lemma run_sources_evidence:
  "run_sources e stopwords ss tabs = Inr tabs' \<Longrightarrow> radar_tables_ok tabs \<Longrightarrow>
     radar_tables_ok tabs'
     \<and> radar_evidence tabs' t =
         fold keep_best (radar_observations e stopwords t ss) (radar_evidence tabs t)"
proof (induction ss arbitrary: tabs)
  case Nil
  then show ?case by (simp add: radar_observations_def)
next
  case (Cons s ss)
  from Cons.prems(1) obtain mid where mid: "process_source e stopwords s tabs = Inr mid"
    and rest: "run_sources e stopwords ss mid = Inr tabs'"
    by (cases "process_source e stopwords s tabs") simp_all
  from process_source_evidence[OF mid Cons.prems(2), of t]
  have okm: "radar_tables_ok mid"
    and evm: "radar_evidence mid t =
      fold keep_best (source_observations e stopwords t s) (radar_evidence tabs t)"
    by simp_all
  from Cons.IH[OF rest okm] show ?case
    by (simp add: radar_observations_def evm)
qed

lemma empty_radar_tables_ok: "radar_tables_ok \<lparr>agg_score = [], best_link = [], best_src = []\<rparr>"
  by (simp add: radar_tables_ok_def)

lemma radar_run_sources:
  assumes "radar_run e cfg stopwords = Inr (m, tabs)"
  shows "run_sources e stopwords (radar_sources cfg)
           \<lparr>agg_score = [], best_link = [], best_src = []\<rparr> = Inr tabs
         \<and> cross_max_tickers e cfg = Inr m"
  using assms
  by (simp add: radar_run_def radar_sources_def Let_def split: sum.splits)

lemma radar_run_evidence:
  assumes "radar_run e cfg stopwords = Inr (m, tabs)"
  shows "radar_tables_ok tabs
     \<and> radar_evidence tabs t =
         fold keep_best (radar_observations e stopwords t (radar_sources cfg)) None"
proof -
  from radar_run_sources[OF assms]
  have r: "run_sources e stopwords (radar_sources cfg)
      \<lparr>agg_score = [], best_link = [], best_src = []\<rparr> = Inr tabs"
    by simp
  from run_sources_evidence[OF r empty_radar_tables_ok, of t] show ?thesis
    by (simp add: radar_evidence_def)
qed

section \<open>The first observation of greatest strength\<close>

lemma find_after_misses:
  "\<forall>x\<in>set pre. \<not> P x \<Longrightarrow> P e \<Longrightarrow> List.find P (pre @ e # post) = Some e"
  by (induction pre) simp_all

lemma fold_keep_best_first_max: "fold keep_best obs None = first_max obs"
proof (cases "obs = []")
  case True
  then show ?thesis by (simp add: first_max_def)
next
  case False
  from first_strongest[OF False] obtain pre e post where d: "obs = pre @ e # post"
    and lt: "\<forall>ob\<in>set pre. fst ob < fst e" and le: "\<forall>ob\<in>set post. fst ob \<le> fst e"
    and f: "fold keep_best obs None = Some e"
    by blast
  have mx: "Max (set (map fst obs)) = fst e"
  proof (rule Max_eqI)
    show "finite (set (map fst obs))" by simp
    show "fst e \<in> set (map fst obs)" unfolding d by simp
    fix y
    assume "y \<in> set (map fst obs)"
    then obtain ob where ob: "ob \<in> set obs" and y: "y = fst ob" by auto
    from ob consider "ob \<in> set pre" | "ob = e" | "ob \<in> set post"
      unfolding d by auto
    then show "y \<le> fst e"
    proof cases
      case 1
      with lt have "fst ob < fst e" by blast
      then show ?thesis unfolding y by (rule less_imp_le)
    next
      case 2
      then show ?thesis unfolding y by simp
    next
      case 3
      with le show ?thesis unfolding y by blast
    qed
  qed
  have miss: "\<forall>ob\<in>set pre. \<not> fst ob = fst e"
    using lt by auto
  have "List.find (\<lambda>ob. fst ob = fst e) (pre @ e # post) = Some e"
    using miss by (rule find_after_misses) simp
  then have "first_max obs = Some e"
    using False unfolding first_max_def mx by (simp only: d if_False)
  with f show ?thesis by simp
qed

section \<open>The order of the output\<close>

lemma prod_le_cases:
  "(a, s) \<le> (b, t) \<Longrightarrow> s \<noteq> t \<Longrightarrow> a \<le> b \<and> (a = b \<longrightarrow> s < t)"
  for a b :: "'a::linorder" and s t :: "'b::linorder"
  by (auto simp: less_eq_prod_def)

lemma scoreboard_order:
  assumes ij: "i < j" and j: "j < length (build_scoreboard cs stopwords n)"
  shows "unique_authors (build_scoreboard cs stopwords n ! j)
      \<le> unique_authors (build_scoreboard cs stopwords n ! i)
    \<and> (unique_authors (build_scoreboard cs stopwords n ! i)
         = unique_authors (build_scoreboard cs stopwords n ! j)
       \<longrightarrow> ticker (build_scoreboard cs stopwords n ! j)
           < ticker (build_scoreboard cs stopwords n ! i))"
proof -
  let ?key = "\<lambda>kv :: string \<times> string set. (card (snd kv), fst kv)"
  let ?tbl = "fst (scoreboard_tables stopwords cs)"
  let ?r = "slice_to n (sorted_reverse ?key ?tbl)"
  have d: "distinct (map fst ?tbl)"
    using scoreboard_tables_ok[of stopwords cs] by (simp add: sb_tables_ok_def)
  from j have jr: "j < length ?r" by (simp add: build_scoreboard_as_map)
  with ij have ir: "i < length ?r" by simp
  from ranked_order[OF d ij jr]
  have le: "?key (?r ! j) \<le> ?key (?r ! i)" and ne: "fst (?r ! i) \<noteq> fst (?r ! j)"
    by blast+
  have uj: "unique_authors (build_scoreboard cs stopwords n ! j) = card (snd (?r ! j))"
    and tj: "ticker (build_scoreboard cs stopwords n ! j) = fst (?r ! j)"
    using jr by (simp_all add: build_scoreboard_as_map)
  have ui: "unique_authors (build_scoreboard cs stopwords n ! i) = card (snd (?r ! i))"
    and ti: "ticker (build_scoreboard cs stopwords n ! i) = fst (?r ! i)"
    using ir by (simp_all add: build_scoreboard_as_map)
  from ne have ne': "fst (?r ! j) \<noteq> fst (?r ! i)" by (rule not_sym)
  from prod_le_cases[OF le ne'] show ?thesis
    by (simp only: uj tj ui ti) auto
qed

lemma rank_radar_nth:
  assumes "i < length (rank_radar m tabs)"
  shows "r_ticker (rank_radar m tabs ! i)
      = fst (slice_to m (sorted_reverse (\<lambda>kv. (snd kv, fst kv)) (agg_score tabs)) ! i)"
  using assms by (simp add: rank_radar_def case_prod_beta)

lemma total_score_entry:
  "distinct (map fst (agg_score tabs)) \<Longrightarrow> kv \<in> set (agg_score tabs) \<Longrightarrow>
     total_score tabs (fst kv) = snd kv"
  by (cases kv) (simp add: total_score_def)

lemma radar_order:
  assumes ok: "radar_tables_ok tabs" and ij: "i < j" and j: "j < length (rank_radar m tabs)"
  shows "total_score tabs (r_ticker (rank_radar m tabs ! j))
      \<le> total_score tabs (r_ticker (rank_radar m tabs ! i))
    \<and> (total_score tabs (r_ticker (rank_radar m tabs ! i))
         = total_score tabs (r_ticker (rank_radar m tabs ! j))
       \<longrightarrow> r_ticker (rank_radar m tabs ! j) < r_ticker (rank_radar m tabs ! i))"
proof -
  let ?key = "\<lambda>kv :: string \<times> real. (snd kv, fst kv)"
  let ?r = "slice_to m (sorted_reverse ?key (agg_score tabs))"
  from ok have d: "distinct (map fst (agg_score tabs))"
    by (simp add: radar_tables_ok_def)
  from j have jr: "j < length ?r" by (simp add: rank_radar_def)
  from j ij have i: "i < length (rank_radar m tabs)" by simp
  from ranked_order[OF d ij jr]
  have le: "?key (?r ! j) \<le> ?key (?r ! i)" and ne: "fst (?r ! i) \<noteq> fst (?r ! j)"
    and mi: "?r ! i \<in> set (agg_score tabs)" and mj: "?r ! j \<in> set (agg_score tabs)"
    by blast+
  have tj: "total_score tabs (fst (?r ! j)) = snd (?r ! j)"
    using d mj by (rule total_score_entry)
  have ti: "total_score tabs (fst (?r ! i)) = snd (?r ! i)"
    using d mi by (rule total_score_entry)
  from ne have ne': "fst (?r ! j) \<noteq> fst (?r ! i)" by (rule not_sym)
  from prod_le_cases[OF le ne'] show ?thesis
    by (simp only: rank_radar_nth[OF j] rank_radar_nth[OF i] tj ti) auto
qed

section \<open>The tickers of the scoreboard and their evidence\<close>

lemma fold_note_keys:
  "fst ` set (fst (fold (note_ticker a sc l) ts tabs)) = fst ` set (fst tabs) \<union> set ts"
proof (induction ts arbitrary: tabs)
  case Nil
  then show ?case by simp
next
  case (Cons x xs)
  have "fst ` set (fst (note_ticker a sc l x tabs)) = insert x (fst ` set (fst tabs))"
    by (simp add: note_ticker_fst AList.dom_update)
  then show ?case by (simp add: Cons.IH)
qed

lemma scan_comment_keys:
  "fst ` set (fst (scan_comment stopwords c tabs))
     = fst ` set (fst tabs) \<union> {t. mentions stopwords t c}"
proof (cases "c_body c")
  case None
  then show ?thesis by (simp add: scan_comment_def mentions_def)
next
  case b: (Some b)
  show ?thesis
  proof (cases "c_author c")
    case None
    with b show ?thesis by (simp add: scan_comment_def mentions_def)
  next
    case (Some a)
    show ?thesis
    proof (cases "extract_tickers b stopwords = []")
      case True
      with Some b show ?thesis by (simp add: scan_comment_def mentions_def)
    next
      case False
      with Some b show ?thesis
        by (simp add: scan_comment_def mentions_def fold_note_keys)
    qed
  qed
qed

lemma fold_scan_keys:
  "fst ` set (fst (fold (scan_comment stopwords) cs tabs))
     = fst ` set (fst tabs) \<union> {t. \<exists>c\<in>set cs. mentions stopwords t c}"
proof (induction cs arbitrary: tabs)
  case Nil
  then show ?case by simp
next
  case (Cons c cs)
  show ?case
    unfolding fold_simps Cons.IH scan_comment_keys by auto
qed

lemma scoreboard_keys:
  "fst ` set (fst (scoreboard_tables stopwords cs)) = {t. \<exists>c\<in>set cs. mentions stopwords t c}"
  by (simp add: scoreboard_tables_def fold_scan_keys)

lemma scoreboard_item_source:
  assumes "it \<in> set (build_scoreboard cs stopwords n)"
  shows "ticker it \<in> fst ` set (fst (scoreboard_tables stopwords cs))
    \<and> best_comment it = map_option snd (map_of (snd (scoreboard_tables stopwords cs)) (ticker it))"
proof -
  let ?tbl = "fst (scoreboard_tables stopwords cs)"
  obtain k where k: "slice_to n (sorted_reverse (\<lambda>kv. (card (snd kv), fst kv)) ?tbl)
      = take k (sorted_reverse (\<lambda>kv. (card (snd kv), fst kv)) ?tbl)"
    using slice_to_take by blast
  from assms obtain kv where kv: "kv \<in> set (take k (sorted_reverse (\<lambda>kv. (card (snd kv), fst kv)) ?tbl))"
    and it: "it = \<lparr>ticker = fst kv, unique_authors = card (snd kv),
        best_comment = (case map_of (snd (scoreboard_tables stopwords cs)) (fst kv) of
                          None \<Rightarrow> None | Some best \<Rightarrow> Some (snd best))\<rparr>"
    unfolding build_scoreboard_as_map k by auto
  from kv have "kv \<in> set (sorted_reverse (\<lambda>kv. (card (snd kv), fst kv)) ?tbl)"
    by (rule in_set_takeD)
  then have "kv \<in> set ?tbl" by simp
  then have "fst kv \<in> fst ` set ?tbl" by (rule imageI)
  then show ?thesis
    by (simp add: it map_option_case)
qed

lemma first_max_member:
  "first_max obs = Some e \<Longrightarrow> e \<in> set obs"
  by (auto simp: first_max_def dest: find_SomeD split: if_splits)

lemma first_max_nonempty: "obs \<noteq> [] \<Longrightarrow> \<exists>e. first_max obs = Some e"
  using first_strongest[of obs] fold_keep_best_first_max[of obs] by auto

section \<open>The evidence of the radar, table by table\<close>

lemma radar_evidence_split:
  assumes ok: "radar_tables_ok tabs"
  shows "map_of (best_link tabs) t
      = map_option (\<lambda>ob. (fst ob, fst (snd ob))) (radar_evidence tabs t)
    \<and> map_of (best_src tabs) t = map_option (\<lambda>ob. snd (snd ob)) (radar_evidence tabs t)"
proof -
  from ok have dm: "dom (map_of (best_link tabs)) = dom (map_of (best_src tabs))"
    by (simp add: radar_tables_ok_def)
  show ?thesis
  proof (cases "map_of (best_link tabs) t")
    case None
    then have "t \<notin> dom (map_of (best_link tabs))" by blast
    with dm have "t \<notin> dom (map_of (best_src tabs))" by simp
    then have "map_of (best_src tabs) t = None" by blast
    with None show ?thesis by (simp add: radar_evidence_def)
  next
    case (Some l)
    then have "t \<in> dom (map_of (best_link tabs))" by blast
    with dm have "t \<in> dom (map_of (best_src tabs))" by simp
    then obtain s where s: "map_of (best_src tabs) t = Some s" by blast
    with Some show ?thesis by (simp add: radar_evidence_def)
  qed
qed

section \<open>Runs of the examples\<close>

lemma example_source:
  "read_source (example_env ps) (JObj [(''name'', JStr ''wsb''), (''weight'', JInt 1)])
     = Inr (Some \<lparr>name = ''wsb'', weight = 1, mode = ''hot'', limit_posts = 40,
                   lookback_hours = 24\<rparr>)"
  by (simp add: read_source_def py_get_def py_str_def strip_def is_space_def
      source_weight_def source_limit_posts_def source_lookback_hours_def py_or_def
      lower_def lower_char_def)

lemma example_radar_run:
  "radar_run (example_env ps) example_cfg stopwords
     = Inr (8, fold (process_post stopwords
                       \<lparr>name = ''wsb'', weight = 1, mode = ''hot'', limit_posts = 40,
                         lookback_hours = 24\<rparr>)
                 ps \<lparr>agg_score = [], best_link = [], best_src = []\<rparr>)"
  by (simp add: radar_run_def example_cfg_def py_get_def cross_max_tickers_def py_or_def
      process_source_def example_source fetch_posts_def)
     (simp add: example_env_def)

lemma example_window: "within_hours 1700000000000000 1699999000 24 = Some True"
  by (simp add: within_hours_def timedelta_hours_def dt_from_utc_def round_half_even_def
      dt_min_def dt_max_def Let_def)

lemma example_engagement: "engagement (example_post ts ttl l) = 1"
  by (simp add: engagement_def example_post_def)

lemma example_tie_scoreboard:
  "build_scoreboard [example_comment ''ann'' ''AAA BBB'' None ''/x''] {} 12 =
     [\<lparr>ticker = ''BBB'', unique_authors = 1, best_comment = Some ''https://www.reddit.com/x''\<rparr>,
      \<lparr>ticker = ''AAA'', unique_authors = 1, best_comment = Some ''https://www.reddit.com/x''\<rparr>]"
  by (simp add: build_scoreboard_def scoreboard_tables_def scan_comment_def example_comment_def
      text_defs List.map_filter_def note_ticker_def replaces_def comment_score_def
      comment_link_def sorted_reverse_def slice_to_def less_eq_prod_def less_prod_def)

lemma example_tie_tables:
  "fold (process_post {}
           \<lparr>name = ''wsb'', weight = 1, mode = ''hot'', limit_posts = 40,
             lookback_hours = 24\<rparr>)
     (example_listing [(''AAA BBB'', ''/p'')])
     \<lparr>agg_score = [], best_link = [], best_src = []\<rparr>
   = \<lparr>agg_score = [(''AAA'', 1), (''BBB'', 1)],
      best_link = [(''AAA'', 1, ''https://www.reddit.com/p''),
                   (''BBB'', 1, ''https://www.reddit.com/p'')],
      best_src = [(''AAA'', ''r/wsb''), (''BBB'', ''r/wsb'')]\<rparr>"
proof -
  have x: "extract_tickers ''AAA BBB'' {} = [''AAA'', ''BBB'']"
    by (simp add: text_defs List.map_filter_def)
  have p: "post_text (example_post 1699999000 ''AAA BBB'' ''/p'') = ''AAA BBB''"
    by (simp add: post_text_def example_post_def strip_def is_space_def)
  have c: "created_utc (example_post 1699999000 ''AAA BBB'' ''/p'') = Some 1699999000"
    and u: "post_url (example_post 1699999000 ''AAA BBB'' ''/p'') = ''https://www.reddit.com/p''"
    by (simp_all add: example_post_def post_url_def)
  show ?thesis
    by (simp add: example_listing_def process_post_def c example_window p x u
        example_engagement add_contribution_def replaces_def)
qed

lemma example_tie_radar:
  "build_cross_sub_radar (example_env (example_listing [(''AAA BBB'', ''/p'')])) example_cfg {}
     = Inr [\<lparr>r_ticker = ''BBB'', r_score = 1, best_post = Some ''https://www.reddit.com/p'',
              r_best_src = Some ''r/wsb''\<rparr>,
            \<lparr>r_ticker = ''AAA'', r_score = 1, best_post = Some ''https://www.reddit.com/p'',
              r_best_src = Some ''r/wsb''\<rparr>]"
proof -
  have e: "py_truthy (py_get example_cfg ''cross_subs_enabled'' (JBool False))"
    by (simp add: example_cfg_def py_get_def)
  have r: "round2 1 = 1"
    by (simp add: round2_def round_half_even_def)
  show ?thesis
    by (simp add: build_cross_sub_radar_def e example_radar_run example_tie_tables
        rank_radar_def sorted_reverse_def slice_to_def less_eq_prod_def less_prod_def r)
qed

section \<open>What the ranking of the scoreboard depends on\<close>

lemma scoreboard_ranking:
  "map (\<lambda>it. (ticker it, unique_authors it)) (build_scoreboard cs stopwords n) =
     map (\<lambda>kv. (fst kv, card (snd kv)))
       (slice_to n (sorted_reverse (\<lambda>kv. (card (snd kv), fst kv))
                      (fst (scoreboard_tables stopwords cs))))"
  by (simp add: build_scoreboard_as_map comp_def)

lemma scoreboard_ranking_same:
  assumes "list_all2 same_text_and_author cs' cs"
  shows "map (\<lambda>it. (ticker it, unique_authors it)) (build_scoreboard cs' stopwords n)
    = map (\<lambda>it. (ticker it, unique_authors it)) (build_scoreboard cs stopwords n)"
proof -
  have "fst (fold (scan_comment stopwords) cs' ([], []))
      = fst (fold (scan_comment stopwords) cs ([], []))"
    using assms by (rule fold_scan_fst) simp
  then have "fst (scoreboard_tables stopwords cs') = fst (scoreboard_tables stopwords cs)"
    by (simp only: scoreboard_tables_def)
  then show ?thesis by (simp only: scoreboard_ranking)
qed

lemma scoreboard_all_tickers:
  assumes "int (length (fst (scoreboard_tables stopwords cs))) \<le> n"
  shows "ticker ` set (build_scoreboard cs stopwords n)
    = {t. \<exists>c\<in>set cs. mentions stopwords t c}"
proof -
  let ?s = "sorted_reverse (\<lambda>kv :: string \<times> string set. (card (snd kv), fst kv))
      (fst (scoreboard_tables stopwords cs))"
  from assms have "slice_to n ?s = ?s"
    by (simp add: slice_to_def)
  then have "ticker ` set (build_scoreboard cs stopwords n)
      = fst ` set (fst (scoreboard_tables stopwords cs))"
    by (simp add: build_scoreboard_as_map image_image)
  then show ?thesis by (simp only: scoreboard_keys)
qed

lemma scoreboard_item_evidence:
  assumes it: "it \<in> set (build_scoreboard cs stopwords n)"
  shows "(\<exists>c\<in>set cs. mentions stopwords (ticker it) c \<and> best_comment it = Some (comment_link c))
    \<and> best_comment it
        = map_option snd (first_max (comment_observations stopwords (ticker it) cs))"
proof -
  let ?obs = "comment_observations stopwords (ticker it) cs"
  from scoreboard_item_source[OF it]
  have key: "ticker it \<in> fst ` set (fst (scoreboard_tables stopwords cs))"
    and bc: "best_comment it
      = map_option snd (map_of (snd (scoreboard_tables stopwords cs)) (ticker it))"
    by blast+
  have ev: "map_of (snd (scoreboard_tables stopwords cs)) (ticker it) = first_max ?obs"
    by (simp only: scoreboard_evidence fold_keep_best_first_max)
  from key obtain c0 where "c0 \<in> set cs" and "mentions stopwords (ticker it) c0"
    unfolding scoreboard_keys by blast
  then have "?obs \<noteq> []"
    by (auto simp: comment_observations_def filter_empty_conv)
  then obtain e where e: "first_max ?obs = Some e"
    using first_max_nonempty by blast
  then have "e \<in> set ?obs" by (rule first_max_member)
  then obtain c where c: "c \<in> set cs" and m: "mentions stopwords (ticker it) c"
    and ec: "e = (comment_score c, comment_link c)"
    by (auto simp: comment_observations_def)
  have b1: "best_comment it = map_option snd (first_max ?obs)"
    by (simp only: bc ev)
  then have "best_comment it = Some (comment_link c)"
    by (simp add: e ec)
  with c m b1 show ?thesis by blast
qed

lemma scoreboard_item_present:
  assumes "it \<in> set (build_scoreboard cs stopwords n)"
  shows "best_comment it \<noteq> None"
proof -
  from scoreboard_item_evidence[OF assms]
  obtain c where "best_comment it = Some (comment_link c)" by blast
  then show ?thesis by simp
qed

section \<open>Runs of further examples\<close>

lemma example_quiet_scoreboard:
  "build_scoreboard
     [example_comment ''ann'' ''GME'' None ''/x'',
      example_comment ''bob'' ''gme'' (Some (- 3)) ''/y''] {} 12
   = [\<lparr>ticker = ''GME'', unique_authors = 2,
        best_comment = Some ''https://www.reddit.com/x''\<rparr>]"
  by (simp add: build_scoreboard_def scoreboard_tables_def scan_comment_def example_comment_def
      text_defs List.map_filter_def note_ticker_def replaces_def comment_score_def
      comment_link_def sorted_reverse_def slice_to_def)

lemma example_equal_scores:
  "map_of (snd (scoreboard_tables {}
       [example_comment ''ann'' ''GME'' (Some 3) ''/a'',
        example_comment ''bob'' ''GME'' (Some 5) ''/b'',
        example_comment ''cat'' ''gme'' (Some 5) ''/c''])) ''GME''
     = Some (5, ''https://www.reddit.com/b'')"
  by (simp add: scoreboard_tables_def scan_comment_def example_comment_def
      text_defs List.map_filter_def note_ticker_def replaces_def comment_score_def
      comment_link_def)

lemma example_equal_tables:
  "fold (process_post {}
           \<lparr>name = ''wsb'', weight = 1, mode = ''hot'', limit_posts = 40,
             lookback_hours = 24\<rparr>)
     (example_listing [(''GME'', ''/p''), (''GME'', ''/q'')])
     \<lparr>agg_score = [], best_link = [], best_src = []\<rparr>
   = \<lparr>agg_score = [(''GME'', 2)],
      best_link = [(''GME'', 1, ''https://www.reddit.com/p'')],
      best_src = [(''GME'', ''r/wsb'')]\<rparr>"
proof -
  have x: "extract_tickers ''GME'' {} = [''GME'']"
    by (simp add: text_defs List.map_filter_def)
  have p: "post_text (example_post 1699999000 ''GME'' l) = ''GME''" for l
    by (simp add: post_text_def example_post_def strip_def is_space_def)
  have c: "created_utc (example_post 1699999000 ''GME'' l) = Some 1699999000"
    and u: "post_url (example_post 1699999000 ''GME'' l) = ''https://www.reddit.com'' @ l"
    for l
    by (simp_all add: example_post_def post_url_def)
  show ?thesis
    by (simp add: example_listing_def process_post_def c example_window p x u
        example_engagement add_contribution_def replaces_def)
qed

section \<open>Claims about the recognizer and the filter\<close>

text \<open>
  C3, as the code has it. Over the upper-cased text the recognizer reports a match \<open>m\<close>
  at position \<open>p\<close> exactly when \<open>m\<close> is an optional \<open>$\<close> followed by one to five uppercase
  letters standing at \<open>p\<close>, the character before \<open>p\<close> (if any) is no uppercase letter, no
  digit and no \<open>$\<close>, and the character after the match (if any) is no uppercase letter
  and no digit. The \<open>$\<close> of the lookbehind is the part the claim leaves out.
\<close>

theorem recognizer_matches_iff:
  "(p, m) \<in> set (finditer (upper text) 0) \<longleftrightarrow>
     raw_shape m \<and> occurs_at (upper text) p m \<and> lookbehind_ok (upper text) p
     \<and> lookahead_ok (drop (p + length m) (upper text))"
  by (simp add: finditer_iff local_match_def)

theorem recognizer_matches_iff_witness:
  "(6, ''AAPL'') \<in> set (finditer (upper ''NASA1 AAPL, $F said TSLA2day'') 0)"
proof -
  have "raw_shape ''AAPL''"
    by (simp add: raw_shape_def strip_dollar_def startswith_dollar_def is_upper_letter_def)
  moreover have "occurs_at (upper ''NASA1 AAPL, $F said TSLA2day'') 6 ''AAPL''"
    by (simp add: occurs_at_def upper_def upper_char_def)
  moreover have "lookbehind_ok (upper ''NASA1 AAPL, $F said TSLA2day'') 6"
    by (simp add: lookbehind_ok_def upper_def upper_char_def is_upper_letter_def is_digit_def)
  moreover have
    "lookahead_ok (drop (6 + length ''AAPL'') (upper ''NASA1 AAPL, $F said TSLA2day''))"
    by (simp add: lookahead_ok_def upper_def upper_char_def is_upper_letter_def is_digit_def)
  ultimately show ?thesis
    using recognizer_matches_iff[of 6 "''AAPL''" "''NASA1 AAPL, $F said TSLA2day''"] by blast
qed

text \<open>
  C3 as stated fails: in \<open>$$GME\<close> the piece \<open>$GME\<close> at position 1 has the shape, is
  preceded by \<open>$\<close> (no uppercase letter, no digit) and followed by nothing, and the
  recognizer reports no match at all.
\<close>

theorem recognizer_dollar_counterexample:
  "raw_shape ''$GME'' \<and> occurs_at (upper ''$$GME'') 1 ''$GME''
   \<and> \<not> is_upper_letter (upper ''$$GME'' ! 0) \<and> \<not> is_digit (upper ''$$GME'' ! 0)
   \<and> lookahead_ok (drop (1 + length ''$GME'') (upper ''$$GME''))
   \<and> finditer (upper ''$$GME'') 0 = []"
  by (simp add: raw_shape_def occurs_at_def text_defs)

text \<open>
  C2, as the code has it. The stopword set of a run is what \<open>load_stopwords\<close> reads
  from \<open>tickers_stopwords.txt\<close>, and the sample text yields exactly \<open>AAPL\<close> and \<open>F\<close> if
  and only if that set holds \<open>SAID\<close> and does not hold \<open>AAPL\<close>. Whatever the set is, the
  raw matches are \<open>AAPL\<close>, \<open>$F\<close> and \<open>SAID\<close> (nothing from \<open>NASA1\<close> or \<open>TSLA2day\<close>),
  a bare \<open>F\<close> is rejected, \<open>$F\<close> is accepted, and \<open>AAPL\<close> and \<open>SAID\<close> are in the output
  exactly when they are no stopwords.
\<close>

theorem sample_text_tickers:
  "ticker_matches (upper ''NASA1 AAPL, $F said TSLA2day'') = [''AAPL'', ''$F'', ''SAID'']
   \<and> \<not> is_candidate_ticker ''F'' stopwords
   \<and> is_candidate_ticker ''$F'' stopwords
   \<and> extract_tickers ''NASA1 AAPL, $F said TSLA2day'' stopwords =
       (if ''AAPL'' \<in> stopwords then [] else [''AAPL'']) @ [''F'']
       @ (if ''SAID'' \<in> stopwords then [] else [''SAID''])
   \<and> (extract_tickers ''NASA1 AAPL, $F said TSLA2day'' stopwords = [''AAPL'', ''F'']
        \<longleftrightarrow> ''SAID'' \<in> stopwords \<and> ''AAPL'' \<notin> stopwords)"
proof -
  have c1: "is_candidate_ticker ''AAPL'' stopwords \<longleftrightarrow> ''AAPL'' \<notin> stopwords"
    by (simp add: is_candidate_ticker_def upper_def upper_char_def startswith_dollar_def)
  have c2: "is_candidate_ticker ''$F'' stopwords"
    by (simp add: is_candidate_ticker_def upper_def upper_char_def startswith_dollar_def)
  have c3: "is_candidate_ticker ''SAID'' stopwords \<longleftrightarrow> ''SAID'' \<notin> stopwords"
    by (simp add: is_candidate_ticker_def upper_def upper_char_def startswith_dollar_def)
  have c4: "\<not> is_candidate_ticker ''F'' stopwords"
    by (simp add: is_candidate_ticker_def upper_def upper_char_def startswith_dollar_def)
  have ex: "extract_tickers ''NASA1 AAPL, $F said TSLA2day'' stopwords =
      (if ''AAPL'' \<in> stopwords then [] else [''AAPL'']) @ [''F'']
      @ (if ''SAID'' \<in> stopwords then [] else [''SAID''])"
    unfolding extract_tickers_def sample_matches
    by (simp add: List.map_filter_def ticker_of_match_def c1 c2 c3 strip_dollar_def
        startswith_dollar_def)
  have iff: "extract_tickers ''NASA1 AAPL, $F said TSLA2day'' stopwords = [''AAPL'', ''F'']
      \<longleftrightarrow> ''SAID'' \<in> stopwords \<and> ''AAPL'' \<notin> stopwords"
    unfolding ex by simp
  from sample_matches c4 c2 ex iff show ?thesis by (intro conjI)
qed

theorem sample_text_tickers_witness:
  "load_stopwords (Some [''# common words'', ''said'' @ [CHR 0x0A]]) = {''SAID''}
   \<and> extract_tickers ''NASA1 AAPL, $F said TSLA2day''
         (load_stopwords (Some [''# common words'', ''said'' @ [CHR 0x0A]]))
       = [''AAPL'', ''F'']"
proof -
  have l: "load_stopwords (Some [''# common words'', ''said'' @ [CHR 0x0A]]) = {''SAID''}"
    by (simp add: load_stopwords_def stopword_line_def strip_def is_space_def upper_def
        upper_char_def startswith_hash_def)
  from sample_text_tickers[of "{''SAID''}"] show ?thesis
    unfolding l by simp
qed

text \<open>
  C2 as stated fails: the file \<open>tickers_stopwords.txt\<close> is not in the repository, and
  when it is missing \<open>load_stopwords\<close> returns the empty set, with which \<open>SAID\<close>
  survives the filter.
\<close>

theorem sample_text_said_counterexample:
  "load_stopwords None = {}
   \<and> extract_tickers ''NASA1 AAPL, $F said TSLA2day'' (load_stopwords None)
       = [''AAPL'', ''F'', ''SAID'']"
  by (simp add: load_stopwords_def text_defs List.map_filter_def)

text \<open>
  C4, as the code has it. A ticker of the output that is in the stopword set has one
  letter and stands in the text with a \<open>$\<close> before it: a token of two or more letters
  that is in the stopword set never reaches the output, however the text capitalises
  it and with or without a \<open>$\<close>.
\<close>

theorem stopword_in_output_is_dollar_letter:
  assumes "t \<in> set (extract_tickers text stopwords)" and "t \<in> stopwords"
  shows "length t = 1 \<and> (\<exists>p. (p, CHR ''$'' # t) \<in> set (finditer (upper text) 0))"
proof -
  from assms(1) obtain raw where raw: "raw \<in> set (ticker_matches (upper text))"
    and tk: "ticker_of_match raw stopwords = Some t"
    by (auto simp: extract_tickers_def set_map_filter_iff split: if_splits)
  from raw have shape: "raw_shape raw" by (rule ticker_matches_shape)
  then have up: "upper raw = raw" by (rule raw_shape_upper)
  from raw obtain p where p: "(p, raw) \<in> set (finditer (upper text) 0)"
    by (auto simp: ticker_matches_def)
  from tk have cand: "is_candidate_ticker raw stopwords" and t: "t = strip_dollar raw"
    by (auto simp: ticker_of_match_def split: if_splits)
  have cand_eq: "is_candidate_ticker raw stopwords \<longleftrightarrow>
      (startswith_dollar raw \<and> length (tl raw) = 1) \<or>
      (length (strip_dollar raw) \<noteq> 1 \<and> strip_dollar raw \<notin> stopwords
       \<and> strip_dollar raw \<notin> {''AAAA'', ''BBBB'', ''CCCC''})"
    unfolding is_candidate_ticker_def up Let_def strip_dollar_def by auto
  show ?thesis
  proof (cases "startswith_dollar raw")
    case True
    then have r: "raw = CHR ''$'' # t"
      using t by (cases raw) (auto simp: strip_dollar_def startswith_dollar_def)
    then have "tl raw = t" by simp
    with cand assms(2) t have "length t = 1"
      unfolding cand_eq by auto
    with p r show ?thesis by blast
  next
    case False
    with cand assms(2) t have False
      unfolding cand_eq by auto
    then show ?thesis ..
  qed
qed

theorem stopword_in_output_is_dollar_letter_witness:
  "''F'' \<in> set (extract_tickers ''the $f'' {''THE'', ''F''}) \<and> ''F'' \<in> {''THE'', ''F''}
   \<and> length ''F'' = 1 \<and> (\<exists>p. (p, ''$F'') \<in> set (finditer (upper ''the $f'') 0))"
proof -
  have a: "''F'' \<in> set (extract_tickers ''the $f'' {''THE'', ''F''})"
    by (simp add: text_defs)
  have b: "''F'' \<in> {''THE'', ''F''}" by simp
  from stopword_in_output_is_dollar_letter[OF a b] a b show ?thesis by simp
qed

text \<open>
  C4 as stated fails: \<open>F\<close> is in the stopword set and \<open>$f\<close> in the text still puts it
  into the output.
\<close>

theorem stopword_dollar_counterexample:
  "extract_tickers ''$f'' {''F''} = [''F''] \<and> ''F'' \<in> {''F''}"
  by (simp add: text_defs)

text \<open>
  C5. On every raw structural match the loop of \<open>extract_tickers\<close> decides as the
  ordered rules of the specification say and, when it accepts, yields the match
  without its \<open>$\<close>.
\<close>

theorem filter_follows_rules:
  assumes "raw_shape m"
  shows "ticker_of_match m stopwords = candidacy_rules m stopwords"
proof -
  from assms have up: "upper m = m" by (rule raw_shape_upper)
  show ?thesis
    by (simp add: ticker_of_match_def candidacy_rules_def is_candidate_ticker_def up
        strip_dollar_def Let_def)
qed

theorem filter_follows_rules_witness:
  "raw_shape ''$F'' \<and> ticker_of_match ''$F'' {''F''} = candidacy_rules ''$F'' {''F''}
   \<and> candidacy_rules ''$F'' {''F''} = Some ''F''
   \<and> candidacy_rules ''F'' {} = None
   \<and> candidacy_rules ''THE'' {''THE''} = None
   \<and> candidacy_rules ''AAAA'' {} = None
   \<and> candidacy_rules ''$GME'' {} = Some ''GME''"
proof -
  have s: "raw_shape ''$F''"
    by (simp add: raw_shape_def strip_dollar_def startswith_dollar_def is_upper_letter_def)
  from filter_follows_rules[OF s, of "{''F''}"] s show ?thesis
    by (simp add: candidacy_rules_def startswith_dollar_def)
qed

section \<open>Claims about the configuration and the recency window\<close>

lemma truthy_str [simp]: "w \<noteq> [] \<Longrightarrow> py_or (JStr w) d = JStr w"
  by (simp add: py_or_def)

text \<open>
  C8 fails on the code. A field that holds a string which is no number is truthy, so
  \<open>or\<close> keeps it and \<open>float\<close> or \<open>int\<close> raises \<open>ValueError\<close>: each of the four fields
  raises instead of falling back on its default, and the whole run raises with it, at
  the output cap before the loop and at a source of that weight inside it.
\<close>

theorem malformed_number_raises:
  assumes "w \<noteq> []" and "float_of_str e w = None" and "int_of_str e w = None"
  shows "(map_of s ''weight'' = Some (JStr w) \<longrightarrow> source_weight e s = Inl ValueError)
    \<and> (map_of s ''limit_posts'' = Some (JStr w) \<longrightarrow> source_limit_posts e s = Inl ValueError)
    \<and> (map_of s ''lookback_hours'' = Some (JStr w)
        \<longrightarrow> source_lookback_hours e s = Inl ValueError)
    \<and> (map_of cfg ''cross_max_tickers'' = Some (JStr w)
        \<longrightarrow> cross_max_tickers e cfg = Inl ValueError)
    \<and> (map_of cfg ''cross_max_tickers'' = Some (JStr w)
        \<longrightarrow> py_truthy (py_get cfg ''cross_subs_enabled'' (JBool False))
        \<longrightarrow> build_cross_sub_radar e cfg stopwords = Inl ValueError)
    \<and> (map_of s ''weight'' = Some (JStr w)
        \<longrightarrow> strip (py_str e (py_get s ''name'' (JStr []))) \<noteq> []
        \<longrightarrow> process_source e stopwords (JObj s) tabs = Inl ValueError
            \<and> run_sources e stopwords (JObj s # ss) tabs = Inl ValueError)"
proof -
  have f: "map_of s ''weight'' = Some (JStr w) \<Longrightarrow> source_weight e s = Inl ValueError"
    and l: "map_of s ''limit_posts'' = Some (JStr w) \<Longrightarrow>
      source_limit_posts e s = Inl ValueError"
    and h: "map_of s ''lookback_hours'' = Some (JStr w) \<Longrightarrow>
      source_lookback_hours e s = Inl ValueError"
    and c: "map_of cfg ''cross_max_tickers'' = Some (JStr w) \<Longrightarrow>
      cross_max_tickers e cfg = Inl ValueError"
    using assms
    by (simp_all add: source_weight_def source_limit_posts_def source_lookback_hours_def
        cross_max_tickers_def py_get_def)
  have b: "build_cross_sub_radar e cfg stopwords = Inl ValueError"
    if "map_of cfg ''cross_max_tickers'' = Some (JStr w)"
      and "py_truthy (py_get cfg ''cross_subs_enabled'' (JBool False))"
    using that c by (simp add: build_cross_sub_radar_def radar_run_def)
  have p: "process_source e stopwords (JObj s) tabs = Inl ValueError
      \<and> run_sources e stopwords (JObj s # ss) tabs = Inl ValueError"
    if "map_of s ''weight'' = Some (JStr w)"
      and "strip (py_str e (py_get s ''name'' (JStr []))) \<noteq> []"
    using that f by (simp add: process_source_def read_source_def)
  from f l h c b p show ?thesis by blast
qed

theorem malformed_number_raises_witness:
  "source_weight (example_env []) [(''name'', JStr ''wsb''), (''weight'', JStr ''abc'')]
     = Inl ValueError
   \<and> build_cross_sub_radar (example_env [])
       [(''cross_subs_enabled'', JBool True), (''cross_max_tickers'', JStr ''abc'')] {}
     = Inl ValueError
   \<and> build_cross_sub_radar (example_env [])
       [(''cross_subs_enabled'', JBool True),
        (''cross_subs'', JArr [JObj [(''name'', JStr ''wsb''), (''weight'', JStr ''abc'')]])] {}
     = Inl ValueError"
proof -
  have w: "''abc'' \<noteq> []" by simp
  have f: "float_of_str (example_env []) ''abc'' = None" by (simp add: example_env_def)
  have i: "int_of_str (example_env []) ''abc'' = None" by (simp add: example_env_def)
  note m = malformed_number_raises[OF w f i,
      of "[(''name'', JStr ''wsb''), (''weight'', JStr ''abc'')]"
         "[(''cross_subs_enabled'', JBool True), (''cross_max_tickers'', JStr ''abc'')]" "{}"]
  have sw: "source_weight (example_env [])
      [(''name'', JStr ''wsb''), (''weight'', JStr ''abc'')] = Inl ValueError"
    using m by simp
  have b1: "build_cross_sub_radar (example_env [])
      [(''cross_subs_enabled'', JBool True), (''cross_max_tickers'', JStr ''abc'')] {}
      = Inl ValueError"
    using m by (simp add: py_get_def)
  have nm: "strip ''wsb'' = ''wsb''" by (simp add: strip_def is_space_def)
  have b2: "build_cross_sub_radar (example_env [])
      [(''cross_subs_enabled'', JBool True),
       (''cross_subs'', JArr [JObj [(''name'', JStr ''wsb''), (''weight'', JStr ''abc'')]])] {}
      = Inl ValueError"
    by (simp add: build_cross_sub_radar_def radar_run_def py_get_def cross_max_tickers_def
        py_or_def process_source_def read_source_def py_str_def nm sw)
  from sw b1 b2 show ?thesis by simp
qed

text \<open>
  C10. A numeric field set to zero (the integer or the float) is read as if it were
  absent: the weight becomes 0.35, \<open>limit_posts\<close> 40, \<open>lookback_hours\<close> 24 and the
  output cap 8, and these are the values the source then works with.
\<close>

theorem zero_field_takes_default:
  assumes "z = JInt 0 \<or> z = JFloat 0"
  shows "(map_of s ''weight'' = Some z \<longrightarrow> source_weight e s = Inr 0.35)
    \<and> (map_of s ''limit_posts'' = Some z \<longrightarrow> source_limit_posts e s = Inr 40)
    \<and> (map_of s ''lookback_hours'' = Some z \<longrightarrow> source_lookback_hours e s = Inr 24)
    \<and> (map_of cfg ''cross_max_tickers'' = Some z \<longrightarrow> cross_max_tickers e cfg = Inr 8)
    \<and> (read_source e (JObj s) = Inr (Some src) \<longrightarrow>
         (map_of s ''weight'' = Some z \<longrightarrow> weight src = 0.35)
         \<and> (map_of s ''limit_posts'' = Some z \<longrightarrow> limit_posts src = 40)
         \<and> (map_of s ''lookback_hours'' = Some z \<longrightarrow> lookback_hours src = 24))"
proof -
  have o: "py_or z d = d" for d
    using assms by (auto simp: py_or_def)
  have w: "map_of s ''weight'' = Some z \<Longrightarrow> source_weight e s = Inr 0.35"
    by (simp add: source_weight_def py_get_def o)
  have l: "map_of s ''limit_posts'' = Some z \<Longrightarrow> source_limit_posts e s = Inr 40"
    by (simp add: source_limit_posts_def py_get_def o)
  have h: "map_of s ''lookback_hours'' = Some z \<Longrightarrow> source_lookback_hours e s = Inr 24"
    by (simp add: source_lookback_hours_def py_get_def o)
  have c: "map_of cfg ''cross_max_tickers'' = Some z \<Longrightarrow> cross_max_tickers e cfg = Inr 8"
    by (simp add: cross_max_tickers_def py_get_def o)
  have r: "weight src = w' \<and> limit_posts src = l' \<and> lookback_hours src = h'"
    if "read_source e (JObj s) = Inr (Some src)" "source_weight e s = Inr w'"
      "source_limit_posts e s = Inr l'" "source_lookback_hours e s = Inr h'" for w' l' h'
    using that by (auto simp: read_source_def Let_def split: if_splits)
  have rs: "read_source e (JObj s) = Inr (Some src) \<Longrightarrow>
      (\<exists>w' l' h'. source_weight e s = Inr w' \<and> source_limit_posts e s = Inr l'
         \<and> source_lookback_hours e s = Inr h' \<and> weight src = w' \<and> limit_posts src = l'
         \<and> lookback_hours src = h')"
    by (auto simp: read_source_def Let_def split: if_splits sum.splits)
  show ?thesis
    using w l h c rs by fastforce
qed

theorem zero_field_takes_default_witness:
  "source_weight (example_env []) [(''name'', JStr ''wsb''), (''weight'', JInt 0)] = Inr 0.35
   \<and> source_limit_posts (example_env []) [(''limit_posts'', JInt 0)] = Inr 40
   \<and> source_lookback_hours (example_env []) [(''lookback_hours'', JInt 0)] = Inr 24
   \<and> cross_max_tickers (example_env []) [(''cross_max_tickers'', JInt 0)] = Inr 8
   \<and> map_option weight
       (projr (read_source (example_env [])
                 (JObj [(''name'', JStr ''wsb''), (''weight'', JInt 0)])))
     = Some 0.35"
proof -
  have z: "JInt 0 = JInt 0 \<or> JInt 0 = JFloat 0" by simp
  have r: "read_source (example_env []) (JObj [(''name'', JStr ''wsb''), (''weight'', JInt 0)])
      = Inr (Some \<lparr>name = ''wsb'', weight = 0.35, mode = ''hot'', limit_posts = 40,
                    lookback_hours = 24\<rparr>)"
    by (simp add: read_source_def py_get_def py_str_def strip_def is_space_def
        source_weight_def source_limit_posts_def source_lookback_hours_def py_or_def
        lower_def lower_char_def)
  from zero_field_takes_default[OF z, of "[(''name'', JStr ''wsb''), (''weight'', JInt 0)]"
      "example_env []"]
  have a: "source_weight (example_env []) [(''name'', JStr ''wsb''), (''weight'', JInt 0)]
      = Inr 0.35" by simp
  from zero_field_takes_default[OF z, of "[(''limit_posts'', JInt 0)]" "example_env []"]
  have b: "source_limit_posts (example_env []) [(''limit_posts'', JInt 0)] = Inr 40" by simp
  from zero_field_takes_default[OF z, of "[(''lookback_hours'', JInt 0)]" "example_env []"]
  have c: "source_lookback_hours (example_env []) [(''lookback_hours'', JInt 0)] = Inr 24"
    by simp
  from zero_field_takes_default[OF z, of _ _ "[(''cross_max_tickers'', JInt 0)]"]
  have d: "cross_max_tickers (example_env []) [(''cross_max_tickers'', JInt 0)] = Inr 8"
    by simp
  from a b c d r show ?thesis by simp
qed



section \<open>Claims about the two aggregators\<close>






text \<open>
  C7, as the code has it. The first observation of a ticker is stored whatever its
  score is, so every item of the scoreboard has evidence: the link of a comment that
  mentions the ticker, namely of the first one of greatest score, an absent score
  counting as 0. The ranking, that is the tickers, their counts and their order, is the
  same for two threads that differ only in the scores and permalinks of their comments,
  and when the cap leaves room for all of them the tickers of the output are exactly
  those that some counted comment mentions.
\<close>

theorem scoreboard_evidence_never_absent:
  "(\<forall>it\<in>set (build_scoreboard comments stopwords n).
      best_comment it \<noteq> None
      \<and> (\<exists>c\<in>set comments. mentions stopwords (ticker it) c
            \<and> best_comment it = Some (comment_link c))
      \<and> best_comment it
          = map_option snd (first_max (comment_observations stopwords (ticker it) comments)))
   \<and> (list_all2 same_text_and_author comments' comments \<longrightarrow>
        map (\<lambda>it. (ticker it, unique_authors it)) (build_scoreboard comments' stopwords n)
        = map (\<lambda>it. (ticker it, unique_authors it)) (build_scoreboard comments stopwords n))
   \<and> (int (length (fst (scoreboard_tables stopwords comments))) \<le> n \<longrightarrow>
        ticker ` set (build_scoreboard comments stopwords n)
        = {t. \<exists>c\<in>set comments. mentions stopwords t c})"
proof (intro conjI ballI impI)
  fix it
  assume it: "it \<in> set (build_scoreboard comments stopwords n)"
  from scoreboard_item_evidence[OF it]
  have ex: "\<exists>c\<in>set comments. mentions stopwords (ticker it) c
      \<and> best_comment it = Some (comment_link c)"
    by (rule conjunct1)
  from it show "best_comment it \<noteq> None" by (rule scoreboard_item_present)
  from ex show "\<exists>c\<in>set comments. mentions stopwords (ticker it) c
      \<and> best_comment it = Some (comment_link c)" .
  from scoreboard_item_evidence[OF it]
  show "best_comment it
      = map_option snd (first_max (comment_observations stopwords (ticker it) comments))"
    by (rule conjunct2)
next
  assume "list_all2 same_text_and_author comments' comments"
  then show "map (\<lambda>it. (ticker it, unique_authors it)) (build_scoreboard comments' stopwords n)
      = map (\<lambda>it. (ticker it, unique_authors it)) (build_scoreboard comments stopwords n)"
    by (rule scoreboard_ranking_same)
next
  assume "int (length (fst (scoreboard_tables stopwords comments))) \<le> n"
  then show "ticker ` set (build_scoreboard comments stopwords n)
      = {t. \<exists>c\<in>set comments. mentions stopwords t c}"
    by (rule scoreboard_all_tickers)
qed

theorem scoreboard_evidence_never_absent_witness:
  "build_scoreboard
     [example_comment ''ann'' ''GME'' None ''/x'',
      example_comment ''bob'' ''gme'' (Some (- 3)) ''/y''] {} 12
     = [\<lparr>ticker = ''GME'', unique_authors = 2,
          best_comment = Some ''https://www.reddit.com/x''\<rparr>]
   \<and> list_all2 same_text_and_author
       [example_comment ''ann'' ''GME'' (Some 7) ''/v'',
        example_comment ''bob'' ''gme'' (Some 9) ''/w'']
       [example_comment ''ann'' ''GME'' None ''/x'',
        example_comment ''bob'' ''gme'' (Some (- 3)) ''/y'']
   \<and> map (\<lambda>it. (ticker it, unique_authors it))
       (build_scoreboard
          [example_comment ''ann'' ''GME'' (Some 7) ''/v'',
           example_comment ''bob'' ''gme'' (Some 9) ''/w''] {} 12)
     = [(''GME'', 2)]"
proof -
  let ?cs = "[example_comment ''ann'' ''GME'' None ''/x'',
      example_comment ''bob'' ''gme'' (Some (- 3)) ''/y'']"
  let ?cs' = "[example_comment ''ann'' ''GME'' (Some 7) ''/v'',
      example_comment ''bob'' ''gme'' (Some 9) ''/w'']"
  have same: "list_all2 same_text_and_author ?cs' ?cs"
    by (simp add: same_text_and_author_def example_comment_def)
  note t = scoreboard_evidence_never_absent[where comments = ?cs and comments' = ?cs'
      and stopwords = "{}" and n = 12]
  from t same have "map (\<lambda>it. (ticker it, unique_authors it)) (build_scoreboard ?cs' {} 12)
      = map (\<lambda>it. (ticker it, unique_authors it)) (build_scoreboard ?cs {} 12)"
    by blast
  then have "map (\<lambda>it. (ticker it, unique_authors it)) (build_scoreboard ?cs' {} 12)
      = [(''GME'', 2)]"
    by (simp add: example_quiet_scoreboard)
  with example_quiet_scoreboard same show ?thesis by (intro conjI)
qed

text \<open>
  C7 as stated fails: no input gives an item without evidence. A ticker that is seen
  only in a comment without a score and in one of score \<open>-3\<close> appears with the link of
  the first of them.
\<close>

theorem absent_evidence_counterexample:
  "build_scoreboard
     [example_comment ''ann'' ''GME'' None ''/x'',
      example_comment ''bob'' ''gme'' (Some (- 3)) ''/y''] {} 12
     = [\<lparr>ticker = ''GME'', unique_authors = 2,
          best_comment = Some ''https://www.reddit.com/x''\<rparr>]
   \<and> \<not> (\<exists>comments stopwords n. \<exists>it\<in>set (build_scoreboard comments stopwords n).
          best_comment it = None)"
proof -
  have "best_comment it \<noteq> None"
    if "it \<in> set (build_scoreboard comments stopwords n)" for it comments stopwords n
    using that by (rule scoreboard_item_present)
  then have "\<not> (\<exists>comments stopwords n. \<exists>it\<in>set (build_scoreboard comments stopwords n).
      best_comment it = None)"
    by blast
  with example_quiet_scoreboard show ?thesis by (intro conjI)
qed

end
